theory Spec2Isabelle
  imports Main
begin

section \<open>Heap of list nodes\<close>

text \<open>
  The Go type \<^verbatim>\<open>List[T]\<close> is a struct with the fields \<^verbatim>\<open>prev\<close>, \<^verbatim>\<open>next\<close> and
  \<^verbatim>\<open>Val\<close>; the list is handled through pointers \<^verbatim>\<open>*List[T]\<close>, and the nil pointer is
  the empty list. Nodes alias each other through these pointers, so the model has an
  explicit store: the heap is the list of all nodes allocated so far, a pointer is
  \<open>None\<close> (nil) or \<open>Some a\<close> with \<open>a\<close> the index of the node in the heap, and an
  allocation appends a node. Go never frees a node that is still referenced, so no cell is
  ever removed. The field \<^verbatim>\<open>next\<close> is written \<open>nxt\<close>.

  A nil pointer dereference panics in Go: it is the error \<open>NilDeref\<close>. A pointer to a
  cell that was never allocated does not exist in Go; the model answers \<open>BadAddr\<close> there,
  so that every function is total without reading the heap out of range.
\<close>

datatype error = NilDeref | BadAddr

type_synonym ref = "nat option"

record 'a List_node =
  prev :: ref
  nxt :: ref
  Val :: 'a

type_synonym 'a heap = "'a List_node list"

definition deref :: "'a heap \<Rightarrow> ref \<Rightarrow> error + 'a List_node" where
  "deref h r =
     (case r of
        None \<Rightarrow> Inl NilDeref
      | Some a \<Rightarrow> if a < length h then Inr (h ! a) else Inl BadAddr)"

section \<open>The circular list (list.go)\<close>

definition Prev :: "'a heap \<Rightarrow> ref \<Rightarrow> error + ref" where
  "Prev h list =
     (case list of
        None \<Rightarrow> Inr None
      | Some l \<Rightarrow> if l < length h then Inr (prev (h ! l)) else Inl BadAddr)"

definition Next :: "'a heap \<Rightarrow> ref \<Rightarrow> error + ref" where
  "Next h list =
     (case list of
        None \<Rightarrow> Inr None
      | Some l \<Rightarrow> if l < length h then Inr (nxt (h ! l)) else Inl BadAddr)"

text \<open>
  \<^verbatim>\<open>InsertBefore\<close>: the new node is allocated with \<^verbatim>\<open>next: list\<close>; on a non-nil list
  the tuple assignment \<^verbatim>\<open>node.prev, list.prev = list.prev, node\<close> reads \<^verbatim>\<open>list.prev\<close>
  first and then writes the two fields, and the function returns \<^verbatim>\<open>list\<close>. On nil the
  node is linked to itself and returned.
\<close>

definition InsertBefore :: "'a heap \<Rightarrow> ref \<Rightarrow> 'a \<Rightarrow> error + (ref \<times> 'a heap)" where
  "InsertBefore h list v =
     (let node = length h;
          h1 = h @ [\<lparr>prev = None, nxt = list, Val = v\<rparr>]
      in case list of
           Some l \<Rightarrow>
             if l < length h then
               (let p = prev (h1 ! l);
                    h2 = h1[node := (h1 ! node)\<lparr>prev := p\<rparr>];
                    h3 = h2[l := (h2 ! l)\<lparr>prev := Some node\<rparr>]
                in Inr (list, h3))
             else Inl BadAddr
         | None \<Rightarrow>
             (let h2 = h1[node := (h1 ! node)\<lparr>prev := Some node, nxt := Some node\<rparr>]
              in Inr (Some node, h2)))"

definition InsertAfter :: "'a heap \<Rightarrow> ref \<Rightarrow> 'a \<Rightarrow> error + (ref \<times> 'a heap)" where
  "InsertAfter h list v =
     (let node = length h;
          h1 = h @ [\<lparr>prev = list, nxt = None, Val = v\<rparr>]
      in case list of
           Some l \<Rightarrow>
             if l < length h then
               (let n = nxt (h1 ! l);
                    h2 = h1[node := (h1 ! node)\<lparr>nxt := n\<rparr>];
                    h3 = h2[l := (h2 ! l)\<lparr>nxt := Some node\<rparr>]
                in Inr (list, h3))
             else Inl BadAddr
         | None \<Rightarrow>
             (let h2 = h1[node := (h1 ! node)\<lparr>prev := Some node, nxt := Some node\<rparr>]
              in Inr (Some node, h2)))"

text \<open>
  \<^verbatim>\<open>Remove\<close>: in \<^verbatim>\<open>list.prev.next, list.next.prev = list.next, list.prev\<close> Go first
  evaluates the pointers \<^verbatim>\<open>list.prev\<close> and \<^verbatim>\<open>list.next\<close> on both sides, then
  assigns from left to right; a nil neighbour panics. The result \<^verbatim>\<open>list.prev\<close> is read
  after the assignments.
\<close>

definition Remove :: "'a heap \<Rightarrow> ref \<Rightarrow> error + (ref \<times> 'a heap)" where
  "Remove h list =
     (case list of
        None \<Rightarrow> Inr (None, h)
      | Some l \<Rightarrow>
          if l < length h then
            (case (prev (h ! l), nxt (h ! l)) of
               (Some p, Some n) \<Rightarrow>
                 if p < length h \<and> n < length h then
                   (let h1 = h[p := (h ! p)\<lparr>nxt := Some n\<rparr>];
                        h2 = h1[n := (h1 ! n)\<lparr>prev := Some p\<rparr>]
                    in Inr (prev (h2 ! l), h2))
                 else Inl BadAddr
             | _ \<Rightarrow> Inl NilDeref)
          else Inl BadAddr)"

text \<open>
  The argument of the bulk insertions is an \<^verbatim>\<open>iter.Seq[T]\<close>; it is represented by the
  finite list of the values it yields (\<^verbatim>\<open>NewList\<close> passes \<^verbatim>\<open>slices.Values(vals)\<close>), and
  the \<^verbatim>\<open>for ... range\<close> loop is the recursion over that list.
\<close>

fun InsertSeqBefore :: "'a heap \<Rightarrow> ref \<Rightarrow> 'a list \<Rightarrow> error + (ref \<times> 'a heap)" where
  "InsertSeqBefore h list [] = Inr (list, h)"
| "InsertSeqBefore h list (v # vs) =
     (case InsertBefore h list v of
        Inl e \<Rightarrow> Inl e
      | Inr (list', h') \<Rightarrow> InsertSeqBefore h' list' vs)"

fun InsertSeqAfter_loop ::
  "'a heap \<Rightarrow> ref \<Rightarrow> ref \<Rightarrow> 'a list \<Rightarrow> error + (ref \<times> 'a heap)" where
  "InsertSeqAfter_loop h list tail [] = Inr (list, h)"
| "InsertSeqAfter_loop h list tail (v # vs) =
     (case InsertAfter h tail v of
        Inl e \<Rightarrow> Inl e
      | Inr (r, h') \<Rightarrow>
          (case Next h' r of
             Inl e \<Rightarrow> Inl e
           | Inr tail' \<Rightarrow>
               InsertSeqAfter_loop h' (if list = None then tail' else list) tail' vs))"

definition InsertSeqAfter :: "'a heap \<Rightarrow> ref \<Rightarrow> 'a list \<Rightarrow> error + (ref \<times> 'a heap)" where
  "InsertSeqAfter h list vs = InsertSeqAfter_loop h list list vs"

definition NewListFromSeq :: "'a heap \<Rightarrow> 'a list \<Rightarrow> error + (ref \<times> 'a heap)" where
  "NewListFromSeq h vs = InsertSeqBefore h None vs"

definition NewList :: "'a heap \<Rightarrow> 'a list \<Rightarrow> error + (ref \<times> 'a heap)" where
  "NewList h vals = NewListFromSeq h vals"

subsection \<open>Traversal\<close>

text \<open>
  An \<^verbatim>\<open>iter.Seq\<close> that the list returns is a function of the consumer's \<^verbatim>\<open>yield\<close>.
  The consumer is a function of the yielded element and of its own state \<open>'s\<close>, which
  answers whether to go on (or panics). The heap is the one the traversal started on.
  The loop of \<^verbatim>\<open>seq\<close> has no bound of its own: it ends when the consumer stops or when
  \<^verbatim>\<open>advance\<close> comes back to \<^verbatim>\<open>list\<close>, so its result is an option and \<open>None\<close> is a
  traversal that never returns.
\<close>

type_synonym ('x, 's) yield = "'x \<Rightarrow> 's \<Rightarrow> error + (bool \<times> 's)"

partial_function (option) seq_loop ::
  "'a heap \<Rightarrow> ('a heap \<Rightarrow> ref \<Rightarrow> error + ref) \<Rightarrow> (ref, 's) yield \<Rightarrow> ref \<Rightarrow> ref \<Rightarrow> 's
     \<Rightarrow> (error + 's) option" where
  "seq_loop h advance yield list cur s =
     (case yield cur s of
        Inl e \<Rightarrow> Some (Inl e)
      | Inr (go, s') \<Rightarrow>
          if \<not> go then Some (Inr s')
          else (case advance h cur of
                  Inl e \<Rightarrow> Some (Inl e)
                | Inr cur' \<Rightarrow>
                    if cur' = list then Some (Inr s')
                    else seq_loop h advance yield list cur' s'))"

declare seq_loop.simps [code]

definition seq ::
  "'a heap \<Rightarrow> ref \<Rightarrow> ('a heap \<Rightarrow> ref \<Rightarrow> error + ref) \<Rightarrow> (ref, 's) yield \<Rightarrow> 's
     \<Rightarrow> (error + 's) option" where
  "seq h list advance yield s =
     (if list = None then Some (Inr s) else seq_loop h advance yield list list s)"

definition List_All :: "'a heap \<Rightarrow> ref \<Rightarrow> (ref, 's) yield \<Rightarrow> 's \<Rightarrow> (error + 's) option" where
  "List_All h list = seq h list Next"

definition Backward :: "'a heap \<Rightarrow> ref \<Rightarrow> (ref, 's) yield \<Rightarrow> 's \<Rightarrow> (error + 's) option" where
  "Backward h list = seq h list Prev"

definition yield_Val :: "'a heap \<Rightarrow> ('a, 's) yield \<Rightarrow> (ref, 's) yield" where
  "yield_Val h yield node s =
     (case deref h node of
        Inl e \<Rightarrow> Inl e
      | Inr nd \<Rightarrow> yield (Val nd) s)"

definition Values :: "'a heap \<Rightarrow> ref \<Rightarrow> ('a, 's) yield \<Rightarrow> 's \<Rightarrow> (error + 's) option" where
  "Values h list yield s = List_All h list (yield_Val h yield) s"

definition ValuesBackward ::
  "'a heap \<Rightarrow> ref \<Rightarrow> ('a, 's) yield \<Rightarrow> 's \<Rightarrow> (error + 's) option" where
  "ValuesBackward h list yield s = Backward h list (yield_Val h yield) s"

text \<open>
  Two consumers: \<open>collect\<close> takes every element (as \<^verbatim>\<open>slices.Collect\<close> does), and
  \<open>collect_upto k\<close> breaks out of its loop once it holds \<open>k\<close> elements.
\<close>

definition collect :: "('x, 'x list) yield" where
  "collect x acc = Inr (True, acc @ [x])"

definition collect_upto :: "nat \<Rightarrow> ('x, 'x list) yield" where
  "collect_upto k x acc = Inr (Suc (length acc) < k, acc @ [x])"

section \<open>The ordered map\<close>

text \<open>
  \<^verbatim>\<open>OrderedMap[K, V]\<close> has the fields \<^verbatim>\<open>m\<close>, a Go map from keys to node pointers, and
  \<^verbatim>\<open>head\<close>. A Go map value may be nil (the zero value of the struct): \<open>om_m\<close> is then
  \<open>None\<close>. Reading or deleting from a nil map finds nothing, and \<^verbatim>\<open>init\<close> replaces it
  by an empty map before \<^verbatim>\<open>Set\<close> writes. The nodes of the map live in a heap of
  entries.
\<close>

record ('k, 'v) entry =
  key :: 'k
  val :: 'v

definition enter :: "'k \<Rightarrow> 'v \<Rightarrow> ('k, 'v) entry" where
  "enter k v = \<lparr>key = k, val = v\<rparr>"

record 'k OrderedMap =
  om_m :: "('k \<rightharpoonup> ref) option"
  om_head :: ref

definition OrderedMap_zero :: "'k OrderedMap" where
  "OrderedMap_zero = \<lparr>om_m = None, om_head = None\<rparr>"

definition OrderedMap_init :: "'k OrderedMap \<Rightarrow> 'k OrderedMap" where
  "OrderedMap_init om =
     (case om_m om of
        Some mp \<Rightarrow> om
      | None \<Rightarrow> om\<lparr>om_m := Some Map.empty\<rparr>)"

definition index_get :: "'k OrderedMap \<Rightarrow> 'k \<Rightarrow> ref option" where
  "index_get om k = (case om_m om of None \<Rightarrow> None | Some mp \<Rightarrow> mp k)"

definition OrderedMap_Set ::
  "('k, 'v) entry heap \<Rightarrow> 'k OrderedMap \<Rightarrow> 'k \<Rightarrow> 'v
     \<Rightarrow> error + (('k, 'v) entry heap \<times> 'k OrderedMap)" where
  "OrderedMap_Set h om0 k v =
     (let om = OrderedMap_init om0 in
      case index_get om k of
        Some node \<Rightarrow>
          (case node of
             None \<Rightarrow> Inl NilDeref
           | Some a \<Rightarrow>
               if a < length h
               then Inr (h[a := (h ! a)\<lparr>Val := (Val (h ! a))\<lparr>val := v\<rparr>\<rparr>], om)
               else Inl BadAddr)
      | None \<Rightarrow>
          (case InsertBefore h (om_head om) (enter k v) of
             Inl e \<Rightarrow> Inl e
           | Inr (hd', h') \<Rightarrow>
               (case Prev h' hd' of
                  Inl e \<Rightarrow> Inl e
                | Inr p \<Rightarrow>
                    Inr (h', om\<lparr>om_head := hd',
                                om_m := map_option (\<lambda>mp. mp(k \<mapsto> p)) (om_m om)\<rparr>))))"

definition OrderedMap_Lookup ::
  "'v \<Rightarrow> ('k, 'v) entry heap \<Rightarrow> 'k OrderedMap \<Rightarrow> 'k \<Rightarrow> error + ('v \<times> bool)" where
  "OrderedMap_Lookup zero h om k =
     (case index_get om k of
        None \<Rightarrow> Inr (zero, False)
      | Some node \<Rightarrow>
          (case deref h node of
             Inl e \<Rightarrow> Inl e
           | Inr nd \<Rightarrow> Inr (val (Val nd), True)))"

definition OrderedMap_Delete ::
  "('k, 'v) entry heap \<Rightarrow> 'k OrderedMap \<Rightarrow> 'k
     \<Rightarrow> error + (('k, 'v) entry heap \<times> 'k OrderedMap)" where
  "OrderedMap_Delete h om k =
     (case index_get om k of
        None \<Rightarrow> Inr (h, om)
      | Some node \<Rightarrow>
          (case Remove h node of
             Inl e \<Rightarrow> Inl e
           | Inr (pr, h') \<Rightarrow>
               (case (if node = om_head om then Next h' pr else Inr (om_head om)) of
                  Inl e \<Rightarrow> Inl e
                | Inr hd' \<Rightarrow>
                    Inr (h', om\<lparr>om_head := hd',
                                om_m := map_option (\<lambda>mp. mp(k := None)) (om_m om)\<rparr>))))"

definition OrderedMap_Clear ::
  "('k, 'v) entry heap \<Rightarrow> 'k OrderedMap
     \<Rightarrow> error + (('k, 'v) entry heap \<times> 'k OrderedMap)" where
  "OrderedMap_Clear h om =
     Inr (h, om\<lparr>om_m := map_option (\<lambda>mp. Map.empty) (om_m om), om_head := None\<rparr>)"

definition OrderedMap_All ::
  "('k, 'v) entry heap \<Rightarrow> 'k OrderedMap \<Rightarrow> ('k \<times> 'v, 's) yield \<Rightarrow> 's
     \<Rightarrow> (error + 's) option" where
  "OrderedMap_All h om yield s =
     Values h (om_head om) (\<lambda>e. yield (key e, val e)) s"

definition OrderedMap_Keys ::
  "('k, 'v) entry heap \<Rightarrow> 'k OrderedMap \<Rightarrow> ('k, 's) yield \<Rightarrow> 's
     \<Rightarrow> (error + 's) option" where
  "OrderedMap_Keys h om yield s = OrderedMap_All h om (\<lambda>(k, v). yield k) s"

definition OrderedMap_Values ::
  "('k, 'v) entry heap \<Rightarrow> 'k OrderedMap \<Rightarrow> ('v, 's) yield \<Rightarrow> 's
     \<Rightarrow> (error + 's) option" where
  "OrderedMap_Values h om yield s = OrderedMap_All h om (\<lambda>(k, v). yield v) s"

section \<open>Predicates used in the statements\<close>

text \<open>
  \<open>valid h r\<close>: the pointer \<open>r\<close> is not nil and points into the heap. In a
  well-formed heap every node has valid \<^verbatim>\<open>prev\<close> and \<^verbatim>\<open>next\<close> pointers (no
  operation of the list ever stores nil in a link), and in a well-formed map state the
  head is nil or valid and every pointer stored in the index is valid.
\<close>

definition valid :: "'a heap \<Rightarrow> ref \<Rightarrow> bool" where
  "valid h r = (case r of None \<Rightarrow> False | Some a \<Rightarrow> a < length h)"

definition wf_heap :: "'a heap \<Rightarrow> bool" where
  "wf_heap h = list_all (\<lambda>nd. valid h (prev nd) \<and> valid h (nxt nd)) h"

definition wf_map :: "('k, 'v) entry heap \<Rightarrow> 'k OrderedMap \<Rightarrow> bool" where
  "wf_map h om =
     (wf_heap h \<and> (om_head om = None \<or> valid h (om_head om)) \<and>
      (\<forall>k node. index_get om k = Some node \<longrightarrow> valid h node))"

text \<open>
  \<open>chain f h xs\<close>: every node of \<open>xs\<close> but the last is allocated and its link \<open>f\<close>
  (\<open>nxt\<close> or \<open>prev\<close>) points to its successor in \<open>xs\<close>. A cycle is a non-empty list
  of distinct nodes whose chain closes on its first node.
\<close>

fun chain :: "('a List_node \<Rightarrow> ref) \<Rightarrow> 'a heap \<Rightarrow> nat list \<Rightarrow> bool" where
  "chain f h [] = True"
| "chain f h [x] = True"
| "chain f h (x # y # ys) = (x < length h \<and> f (h ! x) = Some y \<and> chain f h (y # ys))"

definition cycle :: "('a List_node \<Rightarrow> ref) \<Rightarrow> 'a heap \<Rightarrow> nat list \<Rightarrow> bool" where
  "cycle f h ns = (ns \<noteq> [] \<and> distinct ns \<and> chain f h (ns @ [hd ns]))"

text \<open>
  What a \<^verbatim>\<open>for ... range\<close> loop over a sequence that yields exactly \<open>xs\<close> does to a
  consumer: the elements are handed over in order until the consumer stops or panics.
  \<open>stops\<close> tells whether the consumer ends the loop within \<open>xs\<close>.
\<close>

fun feed :: "('x, 's) yield \<Rightarrow> 'x list \<Rightarrow> 's \<Rightarrow> error + 's" where
  "feed yield [] s = Inr s"
| "feed yield (x # xs) s =
     (case yield x s of
        Inl e \<Rightarrow> Inl e
      | Inr (go, s') \<Rightarrow> if go then feed yield xs s' else Inr s')"

fun stops :: "('x, 's) yield \<Rightarrow> 'x list \<Rightarrow> 's \<Rightarrow> bool" where
  "stops yield [] s = False"
| "stops yield (x # xs) s =
     (case yield x s of
        Inl e \<Rightarrow> True
      | Inr (go, s') \<Rightarrow> if go then stops yield xs s' else True)"

text \<open>Sequences of calls on a map, from a given state; the first panic ends the run.\<close>

datatype ('k, 'v) map_op = OpSet 'k 'v | OpDelete 'k | OpClear

fun apply_op ::
  "('k, 'v) entry heap \<times> 'k OrderedMap \<Rightarrow> ('k, 'v) map_op
     \<Rightarrow> error + (('k, 'v) entry heap \<times> 'k OrderedMap)" where
  "apply_op (h, om) (OpSet k v) = OrderedMap_Set h om k v"
| "apply_op (h, om) (OpDelete k) = OrderedMap_Delete h om k"
| "apply_op (h, om) OpClear = OrderedMap_Clear h om"

fun apply_ops ::
  "('k, 'v) entry heap \<times> 'k OrderedMap \<Rightarrow> ('k, 'v) map_op list
     \<Rightarrow> error + (('k, 'v) entry heap \<times> 'k OrderedMap)" where
  "apply_ops st [] = Inr st"
| "apply_ops st (x # xs) =
     (case apply_op st x of
        Inl e \<Rightarrow> Inl e
      | Inr st' \<Rightarrow> apply_ops st' xs)"

section \<open>Single operations on the list\<close>

lemma Next_valid: "a < length h \<Longrightarrow> Next h (Some a) = Inr (nxt (h ! a))"
  by (simp add: Next_def)

lemma Prev_valid: "a < length h \<Longrightarrow> Prev h (Some a) = Inr (prev (h ! a))"
  by (simp add: Prev_def)

lemma InsertBefore_nil:
  "InsertBefore h None v =
     Inr (Some (length h), h @ [\<lparr>prev = Some (length h), nxt = Some (length h), Val = v\<rparr>])"
  by (simp add: InsertBefore_def Let_def)

lemma InsertBefore_node:
  "l < length h \<Longrightarrow>
   InsertBefore h (Some l) v =
     Inr (Some l, (h @ [\<lparr>prev = prev (h ! l), nxt = Some l, Val = v\<rparr>])
                    [l := (h ! l)\<lparr>prev := Some (length h)\<rparr>])"
  by (simp add: InsertBefore_def Let_def nth_append list_update_append)

lemma InsertAfter_nil:
  "InsertAfter h None v =
     Inr (Some (length h), h @ [\<lparr>prev = Some (length h), nxt = Some (length h), Val = v\<rparr>])"
  by (simp add: InsertAfter_def Let_def)

lemma InsertAfter_node:
  "l < length h \<Longrightarrow>
   InsertAfter h (Some l) v =
     Inr (Some l, (h @ [\<lparr>prev = Some l, nxt = nxt (h ! l), Val = v\<rparr>])
                    [l := (h ! l)\<lparr>nxt := Some (length h)\<rparr>])"
  by (simp add: InsertAfter_def Let_def nth_append list_update_append)

lemma Remove_node:
  assumes "l < length h" "prev (h ! l) = Some p" "nxt (h ! l) = Some n"
    and "p < length h" "n < length h"
  shows "Remove h (Some l) =
           Inr (Some p, h[p := (h ! p)\<lparr>nxt := Some n\<rparr>,
                          n := (h[p := (h ! p)\<lparr>nxt := Some n\<rparr>] ! n)\<lparr>prev := Some p\<rparr>])"
proof -
  let ?h1 = "h[p := (h ! p)\<lparr>nxt := Some n\<rparr>]"
  let ?h2 = "?h1[n := (?h1 ! n)\<lparr>prev := Some p\<rparr>]"
  have "prev (?h1 ! l) = Some p"
    using assms by (cases "l = p") simp_all
  then have "prev (?h2 ! l) = Some p"
    using assms by (cases "l = n") simp_all
  then show ?thesis
    using assms by (simp add: Remove_def Let_def)
qed

section \<open>Claims about single list operations\<close>

text \<open>
  The heaps of the examples below are built by the operations themselves: this one by
  \<^verbatim>\<open>InsertSeqAfter\<close> from the empty list (its \<^verbatim>\<open>next\<close> links form a cycle), and the one
  of \<^verbatim>\<open>NewList\<close>, whose \<^verbatim>\<open>prev\<close> links form a cycle, further down.
\<close>

lemma InsertSeqAfter_ABC:
  "InsertSeqAfter [] None [''A'', ''B'', ''C''] =
     Inr (Some 0, [\<lparr>prev = Some 0, nxt = Some 1, Val = ''A''\<rparr>,
                   \<lparr>prev = Some 0, nxt = Some 2, Val = ''B''\<rparr>,
                   \<lparr>prev = Some 1, nxt = Some 0, Val = ''C''\<rparr>])"
  by code_simp

text \<open>
  Claim C1 (the code departs from it). The claim: in every list reachable through the
  public operations, \<open>prev (next n) = n\<close> and \<open>next (prev n) = n\<close> for every node.
  \<^verbatim>\<open>InsertBefore\<close> on a non-nil list writes \<^verbatim>\<open>node.prev\<close> and \<^verbatim>\<open>list.prev\<close> only; the
  \<^verbatim>\<open>next\<close> field of the old predecessor is left as it was. After
  \<^verbatim>\<open>nil.InsertBefore(1).InsertBefore(2)\<close> the anchor (cell 0) has \<open>next = 0\<close> and
  \<open>prev = 1\<close>, so \<open>prev (next 0) = 1\<close>. \<^verbatim>\<open>InsertAfter\<close> is the mirror image: after
  \<^verbatim>\<open>nil.InsertBefore(1).InsertAfter(2)\<close> the anchor has \<open>prev = 0\<close> and \<open>next = 1\<close>,
  so \<open>next (prev 0) = 1\<close>.
\<close>

theorem InsertBefore_breaks_prev_next:
  "InsertBefore [] None (1::nat) = Inr (Some 0, [\<lparr>prev = Some 0, nxt = Some 0, Val = 1\<rparr>]) \<and>
   InsertBefore [\<lparr>prev = Some 0, nxt = Some 0, Val = 1::nat\<rparr>] (Some 0) 2 =
     Inr (Some 0, [\<lparr>prev = Some 1, nxt = Some 0, Val = 1\<rparr>,
                   \<lparr>prev = Some 0, nxt = Some 0, Val = 2\<rparr>]) \<and>
   Next [\<lparr>prev = Some 1, nxt = Some 0, Val = 1::nat\<rparr>,
         \<lparr>prev = Some 0, nxt = Some 0, Val = 2\<rparr>] (Some 0) = Inr (Some 0) \<and>
   Prev [\<lparr>prev = Some 1, nxt = Some 0, Val = 1::nat\<rparr>,
         \<lparr>prev = Some 0, nxt = Some 0, Val = 2\<rparr>] (Some 0) = Inr (Some 1) \<and>
   InsertAfter [\<lparr>prev = Some 0, nxt = Some 0, Val = 1::nat\<rparr>] (Some 0) 2 =
     Inr (Some 0, [\<lparr>prev = Some 0, nxt = Some 1, Val = 1\<rparr>,
                   \<lparr>prev = Some 0, nxt = Some 0, Val = 2\<rparr>]) \<and>
   Prev [\<lparr>prev = Some 0, nxt = Some 1, Val = 1::nat\<rparr>,
         \<lparr>prev = Some 0, nxt = Some 0, Val = 2\<rparr>] (Some 0) = Inr (Some 0) \<and>
   Next [\<lparr>prev = Some 0, nxt = Some 1, Val = 1::nat\<rparr>,
         \<lparr>prev = Some 0, nxt = Some 0, Val = 2\<rparr>] (Some 0) = Inr (Some 1)"
  by code_simp

text \<open>
  Claim C5 (the code departs from it). The claim: \<^verbatim>\<open>InsertBefore\<close> on nil returns a
  self-linked node, and on a node it splices the new node between \<^verbatim>\<open>ref.prev\<close> and
  \<^verbatim>\<open>ref\<close>, immediately before \<^verbatim>\<open>ref\<close> in traversal order, returning \<^verbatim>\<open>ref\<close>. The
  nil case and the returned reference are as claimed; the splice is half done: on the
  one-node list the traversal in \<^verbatim>\<open>next\<close> order from the anchor still yields the anchor
  alone after the insertion.
\<close>

theorem InsertBefore_not_spliced:
  "InsertBefore [\<lparr>prev = Some 0, nxt = Some 0, Val = 1::nat\<rparr>] (Some 0) 2 =
     Inr (Some 0, [\<lparr>prev = Some 1, nxt = Some 0, Val = 1\<rparr>,
                   \<lparr>prev = Some 0, nxt = Some 0, Val = 2\<rparr>]) \<and>
   List_All [\<lparr>prev = Some 1, nxt = Some 0, Val = 1::nat\<rparr>,
             \<lparr>prev = Some 0, nxt = Some 0, Val = 2\<rparr>] (Some 0) collect [] =
     Some (Inr [Some 0]) \<and>
   Values [\<lparr>prev = Some 1, nxt = Some 0, Val = 1::nat\<rparr>,
           \<lparr>prev = Some 0, nxt = Some 0, Val = 2\<rparr>] (Some 0) collect [] =
     Some (Inr [1])"
  by code_simp

text \<open>
  Claim C6. \<^verbatim>\<open>Remove\<close> on a node whose neighbours \<open>p\<close> (before) and \<open>n\<close> (after) exist
  links \<open>p\<close> and \<open>n\<close> to each other, leaves every other cell as it was and returns
  \<open>p\<close>, the value of \<^verbatim>\<open>ref.prev\<close> before the call; \<^verbatim>\<open>Remove\<close> on nil returns nil and
  leaves the heap alone.
\<close>

theorem Remove_connects_neighbours:
  assumes "l < length h" "prev (h ! l) = Some p" "nxt (h ! l) = Some n"
    and "p < length h" "n < length h"
  shows "(\<exists>h'. Remove h (Some l) = Inr (Some p, h') \<and>
            nxt (h' ! p) = Some n \<and> prev (h' ! n) = Some p \<and> length h' = length h \<and>
            (\<forall>a<length h. a \<noteq> p \<and> a \<noteq> n \<longrightarrow> h' ! a = h ! a)) \<and>
         Remove h None = Inr (None, h)"
proof -
  let ?h1 = "h[p := (h ! p)\<lparr>nxt := Some n\<rparr>]"
  let ?h2 = "?h1[n := (?h1 ! n)\<lparr>prev := Some p\<rparr>]"
  have "nxt (?h2 ! p) = Some n"
    using assms by (cases "p = n") simp_all
  moreover have "prev (?h2 ! n) = Some p"
    using assms by simp
  moreover have "\<forall>a<length h. a \<noteq> p \<and> a \<noteq> n \<longrightarrow> ?h2 ! a = h ! a"
    by simp
  moreover have "Remove h None = Inr (None, h)"
    by (simp add: Remove_def)
  ultimately show ?thesis
    using Remove_node [OF assms] by simp
qed

theorem Remove_connects_neighbours_witness:
  "(1::nat) < length
     [\<lparr>prev = Some 0, nxt = Some 1, Val = ''A''\<rparr>,
      \<lparr>prev = Some 0, nxt = Some 2, Val = ''B''\<rparr>,
      \<lparr>prev = Some 1, nxt = Some 0, Val = ''C''\<rparr>] \<and>
   (\<exists>h'. Remove
     [\<lparr>prev = Some 0, nxt = Some 1, Val = ''A''\<rparr>,
      \<lparr>prev = Some 0, nxt = Some 2, Val = ''B''\<rparr>,
      \<lparr>prev = Some 1, nxt = Some 0, Val = ''C''\<rparr>] (Some 1) = Inr (Some 0, h') \<and>
     nxt (h' ! 0) = Some 2 \<and> prev (h' ! 2) = Some 0 \<and> length h' = 3)"
  using Remove_connects_neighbours [of 1
     "[\<lparr>prev = Some 0, nxt = Some 1, Val = ''A''\<rparr>,
      \<lparr>prev = Some 0, nxt = Some 2, Val = ''B''\<rparr>,
      \<lparr>prev = Some 1, nxt = Some 0, Val = ''C''\<rparr>]" 0 2]
  by auto

text \<open>
  Claim C10. For an allocated anchor \<open>l\<close>: \<^verbatim>\<open>InsertBefore\<close> changes, of the anchor, the
  field \<^verbatim>\<open>prev\<close> only (to the new node) and \<^verbatim>\<open>InsertAfter\<close> the field \<^verbatim>\<open>next\<close> only,
  and neither changes any other cell that existed; \<^verbatim>\<open>Remove\<close> returns with the removed
  node holding exactly what it held before, so it still points to its former neighbours.
\<close>

theorem anchor_frame:
  assumes "l < length h"
  shows "(\<exists>h'. InsertBefore h (Some l) v = Inr (Some l, h') \<and>
            prev (h' ! l) = Some (length h) \<and> nxt (h' ! l) = nxt (h ! l) \<and>
            Val (h' ! l) = Val (h ! l) \<and>
            (\<forall>a<length h. a \<noteq> l \<longrightarrow> h' ! a = h ! a)) \<and>
         (\<exists>h'. InsertAfter h (Some l) v = Inr (Some l, h') \<and>
            nxt (h' ! l) = Some (length h) \<and> prev (h' ! l) = prev (h ! l) \<and>
            Val (h' ! l) = Val (h ! l) \<and>
            (\<forall>a<length h. a \<noteq> l \<longrightarrow> h' ! a = h ! a)) \<and>
         (valid h (prev (h ! l)) \<and> valid h (nxt (h ! l)) \<longrightarrow>
            (\<exists>r h'. Remove h (Some l) = Inr (r, h') \<and> h' ! l = h ! l))"
proof (intro conjI impI)
  show "\<exists>h'. InsertBefore h (Some l) v = Inr (Some l, h') \<and>
            prev (h' ! l) = Some (length h) \<and> nxt (h' ! l) = nxt (h ! l) \<and>
            Val (h' ! l) = Val (h ! l) \<and>
            (\<forall>a<length h. a \<noteq> l \<longrightarrow> h' ! a = h ! a)"
    using assms by (simp add: InsertBefore_node nth_append)
  show "\<exists>h'. InsertAfter h (Some l) v = Inr (Some l, h') \<and>
            nxt (h' ! l) = Some (length h) \<and> prev (h' ! l) = prev (h ! l) \<and>
            Val (h' ! l) = Val (h ! l) \<and>
            (\<forall>a<length h. a \<noteq> l \<longrightarrow> h' ! a = h ! a)"
    using assms by (simp add: InsertAfter_node nth_append)
next
  assume "valid h (prev (h ! l)) \<and> valid h (nxt (h ! l))"
  then obtain p n where pn: "prev (h ! l) = Some p" "nxt (h ! l) = Some n"
      "p < length h" "n < length h"
    by (auto simp: valid_def split: option.splits)
  let ?h1 = "h[p := (h ! p)\<lparr>nxt := Some n\<rparr>]"
  let ?h2 = "?h1[n := (?h1 ! n)\<lparr>prev := Some p\<rparr>]"
  have "?h1 ! l = (h ! l)\<lparr>nxt := Some n\<rparr> \<or> ?h1 ! l = h ! l"
    using pn by (cases "l = p") simp_all
  then have h1: "?h1 ! l = h ! l"
    using pn by auto
  have "?h2 ! l = h ! l"
  proof (cases "l = n")
    case True
    then show ?thesis using pn h1 assms by simp
  next
    case False
    then show ?thesis using h1 by simp
  qed
  then show "\<exists>r h'. Remove h (Some l) = Inr (r, h') \<and> h' ! l = h ! l"
    using Remove_node [OF assms pn] by simp
qed

theorem anchor_frame_witness:
  "(1::nat) < length
     [\<lparr>prev = Some 0, nxt = Some 1, Val = ''A''\<rparr>,
      \<lparr>prev = Some 0, nxt = Some 2, Val = ''B''\<rparr>,
      \<lparr>prev = Some 1, nxt = Some 0, Val = ''C''\<rparr>] \<and>
   (\<exists>h'. InsertBefore
     [\<lparr>prev = Some 0, nxt = Some 1, Val = ''A''\<rparr>,
      \<lparr>prev = Some 0, nxt = Some 2, Val = ''B''\<rparr>,
      \<lparr>prev = Some 1, nxt = Some 0, Val = ''C''\<rparr>] (Some 1) ''D'' = Inr (Some 1, h') \<and>
     prev (h' ! 1) = Some 3 \<and> nxt (h' ! 1) = Some 2 \<and> Val (h' ! 1) = ''B'') \<and>
   (\<exists>h'. InsertAfter
     [\<lparr>prev = Some 0, nxt = Some 1, Val = ''A''\<rparr>,
      \<lparr>prev = Some 0, nxt = Some 2, Val = ''B''\<rparr>,
      \<lparr>prev = Some 1, nxt = Some 0, Val = ''C''\<rparr>] (Some 1) ''D'' = Inr (Some 1, h') \<and>
     nxt (h' ! 1) = Some 3 \<and> prev (h' ! 1) = Some 0 \<and> Val (h' ! 1) = ''B'') \<and>
   (\<exists>r h'. Remove
     [\<lparr>prev = Some 0, nxt = Some 1, Val = ''A''\<rparr>,
      \<lparr>prev = Some 0, nxt = Some 2, Val = ''B''\<rparr>,
      \<lparr>prev = Some 1, nxt = Some 0, Val = ''C''\<rparr>] (Some 1) = Inr (r, h') \<and>
     h' ! 1 = \<lparr>prev = Some 0, nxt = Some 2, Val = ''B''\<rparr>)"
  using anchor_frame [of 1
     "[\<lparr>prev = Some 0, nxt = Some 1, Val = ''A''\<rparr>,
      \<lparr>prev = Some 0, nxt = Some 2, Val = ''B''\<rparr>,
      \<lparr>prev = Some 1, nxt = Some 0, Val = ''C''\<rparr>]" "''D''"]
  by (auto simp: valid_def)

section \<open>Claims about the map, evaluated\<close>

text \<open>
  Claim C3 (the code departs from it). The claim: \<^verbatim>\<open>Set\<close> of an existing key updates
  the value in place, \<^verbatim>\<open>Set\<close> of a new key puts its node at the end of the iteration
  order, and after \<^verbatim>\<open>Set("a",1); Set("b",2); Set("a",3)\<close> the keys are \<open>a, b\<close> and
  \<^verbatim>\<open>Lookup("a")\<close> is \<open>(3, true)\<close>. The lookups are as claimed; \<^verbatim>\<open>Keys\<close> yields \<open>a\<close>
  alone, because the node of \<open>b\<close> was inserted by \<^verbatim>\<open>InsertBefore\<close> and no \<^verbatim>\<open>next\<close>
  link leads to it.
\<close>

theorem Set_Set_Set_Keys:
  "(case apply_ops ([], OrderedMap_zero) [OpSet ''a'' (1::int), OpSet ''b'' 2, OpSet ''a'' 3] of
      Inl e \<Rightarrow> False
    | Inr (h, om) \<Rightarrow>
        OrderedMap_Keys h om collect [] = Some (Inr [''a'']) \<and>
        OrderedMap_Lookup 0 h om ''a'' = Inr (3, True) \<and>
        OrderedMap_Lookup 0 h om ''b'' = Inr (2, True))"
  by code_simp

text \<open>
  Claim C7 (the code departs from it). The claim: \<^verbatim>\<open>Delete\<close> of an absent key changes
  nothing; of a present key it removes the node and the index entry, and a removed head
  is replaced by its successor, or by nil when the map becomes empty. Deleting the only
  key leaves the head on the removed node: \<^verbatim>\<open>Remove\<close> returns the node itself, whose
  \<^verbatim>\<open>next\<close> is again itself, and \<^verbatim>\<open>Keys\<close> goes on yielding the deleted key.
\<close>

theorem Delete_last_key_keeps_head:
  "(case apply_ops ([], OrderedMap_zero) [OpSet ''a'' (1::int), OpDelete ''a''] of
      Inl e \<Rightarrow> False
    | Inr (h, om) \<Rightarrow>
        index_get om ''a'' = None \<and> om_head om = Some 0 \<and>
        OrderedMap_Keys h om collect [] = Some (Inr [''a'']))"
  by code_simp

text \<open>
  Claim C9 (the code departs from it). The claim: in every state reachable by
  \<^verbatim>\<open>Set\<close>, \<^verbatim>\<open>Delete\<close> and \<^verbatim>\<open>Clear\<close> the index and the list hold the same keys, one node
  each. After \<^verbatim>\<open>Set("a",1); Set("b",2)\<close> the index holds \<open>b\<close> but the list from the
  head holds the node of \<open>a\<close> only; after \<^verbatim>\<open>Set("a",1); Delete("a")\<close> the index is empty
  but the list from the head, in either direction, still holds the node of \<open>a\<close>.
\<close>

theorem index_and_list_disagree:
  "(case apply_ops ([], OrderedMap_zero) [OpSet ''a'' (1::int), OpSet ''b'' 2] of
      Inl e \<Rightarrow> False
    | Inr (h, om) \<Rightarrow>
        index_get om ''b'' = Some (Some 1) \<and>
        List_All h (om_head om) collect [] = Some (Inr [Some 0]) \<and>
        OrderedMap_Keys h om collect [] = Some (Inr [''a''])) \<and>
   (case apply_ops ([], OrderedMap_zero) [OpSet ''a'' (1::int), OpDelete ''a''] of
      Inl e \<Rightarrow> False
    | Inr (h, om) \<Rightarrow>
        index_get om ''a'' = None \<and>
        List_All h (om_head om) collect [] = Some (Inr [Some 0]) \<and>
        Backward h (om_head om) collect [] = Some (Inr [Some 0]) \<and>
        OrderedMap_Keys h om collect [] = Some (Inr [''a'']))"
  by code_simp

section \<open>Well-formed map states\<close>

text \<open>
  Every operation of the map returns without a panic on a well-formed state and leaves
  the state well-formed; the zero value is well-formed, so every state reached from it by
  \<^verbatim>\<open>Set\<close>, \<^verbatim>\<open>Delete\<close> and \<^verbatim>\<open>Clear\<close> is.
\<close>

lemma wf_heap_iff:
  "wf_heap h \<longleftrightarrow> (\<forall>a<length h. valid h (prev (h ! a)) \<and> valid h (nxt (h ! a)))"
  by (simp add: wf_heap_def list_all_length)

lemma valid_Some [simp]: "valid h (Some a) \<longleftrightarrow> a < length h"
  by (simp add: valid_def)

lemma valid_None [simp]: "\<not> valid h None"
  by (simp add: valid_def)

lemma valid_mono: "valid h r \<Longrightarrow> length h \<le> length h' \<Longrightarrow> valid h' r"
  by (cases r) simp_all

lemma validE: "valid h r \<Longrightarrow> (\<And>a. r = Some a \<Longrightarrow> a < length h \<Longrightarrow> P) \<Longrightarrow> P"
  by (cases r) simp_all

lemma wf_heap_InsertBefore:
  assumes wf: "wf_heap h" and l: "list = None \<or> valid h list"
  shows "\<exists>r h'. InsertBefore h list v = Inr (r, h') \<and> wf_heap h' \<and> valid h' r \<and>
           length h' = Suc (length h) \<and> Prev h' r = Inr (Some (length h)) \<and>
           Val (h' ! length h) = v \<and> (list \<noteq> None \<longrightarrow> r = list)"
proof (cases list)
  case None
  have "wf_heap (h @ [\<lparr>prev = Some (length h), nxt = Some (length h), Val = v\<rparr>])"
    using wf by (auto simp: wf_heap_iff nth_append intro: valid_mono)
  then show ?thesis
    using None by (simp add: InsertBefore_nil Prev_def)
next
  case (Some a)
  then have a: "a < length h" using l by simp
  let ?h' = "(h @ [\<lparr>prev = prev (h ! a), nxt = Some a, Val = v\<rparr>])
               [a := (h ! a)\<lparr>prev := Some (length h)\<rparr>]"
  have "valid ?h' (prev (?h' ! b)) \<and> valid ?h' (nxt (?h' ! b))"
    if b: "b < Suc (length h)" for b
  proof -
    have old: "valid ?h' (prev (h ! c)) \<and> valid ?h' (nxt (h ! c))" if "c < length h" for c
      using wf that by (auto simp: wf_heap_iff intro: valid_mono)
    consider "b = a" | "b = length h" | "b \<noteq> a" "b < length h"
      using b by (auto simp: less_Suc_eq)
    then show ?thesis
    proof cases
      case 1
      then show ?thesis using a old [of a] by simp
    next
      case 2
      then show ?thesis using a old [of a] by simp
    next
      case 3
      then show ?thesis using old [of b] by (simp add: nth_append)
    qed
  qed
  then have "wf_heap ?h'"
    by (simp add: wf_heap_iff)
  then show ?thesis
    using Some a by (simp add: InsertBefore_node Prev_def)
qed

lemma wf_heap_Remove:
  assumes wf: "wf_heap h" and l: "l < length h"
  shows "\<exists>r h'. Remove h (Some l) = Inr (r, h') \<and> wf_heap h' \<and> valid h' r \<and>
           length h' = length h"
proof -
  obtain p n where pn: "prev (h ! l) = Some p" "nxt (h ! l) = Some n"
      "p < length h" "n < length h"
    using wf l by (auto simp: wf_heap_iff elim!: validE)
  let ?h1 = "h[p := (h ! p)\<lparr>nxt := Some n\<rparr>]"
  let ?h2 = "?h1[n := (?h1 ! n)\<lparr>prev := Some p\<rparr>]"
  have old: "valid ?h2 (prev (h ! c))" "valid ?h2 (nxt (h ! c))" if "c < length h" for c
    using wf that by (auto simp: wf_heap_iff intro: valid_mono)
  have "valid ?h2 (prev (?h2 ! b)) \<and> valid ?h2 (nxt (?h2 ! b))" if "b < length h" for b
    using that pn old by (auto simp: nth_list_update)
  then have "wf_heap ?h2"
    by (simp add: wf_heap_iff)
  then show ?thesis
    using Remove_node [OF l pn] pn by simp
qed

lemma index_get_init [simp]: "index_get (OrderedMap_init om) k = index_get om k"
  by (simp add: index_get_def OrderedMap_init_def split: option.splits)

lemma om_head_init [simp]: "om_head (OrderedMap_init om) = om_head om"
  by (simp add: OrderedMap_init_def split: option.splits)

lemma om_m_init: "\<exists>mp. om_m (OrderedMap_init om) = Some mp"
  by (simp add: OrderedMap_init_def split: option.splits)

lemma wf_map_init: "wf_map h om \<Longrightarrow> wf_map h (OrderedMap_init om)"
  by (simp add: wf_map_def)

lemma Set_present:
  assumes "wf_map h om" "index_get om k = Some node"
  shows "\<exists>a. node = Some a \<and> a < length h \<and>
           OrderedMap_Set h om k v =
             Inr (h[a := (h ! a)\<lparr>Val := (Val (h ! a))\<lparr>val := v\<rparr>\<rparr>], OrderedMap_init om)"
proof -
  have "valid h node" using assms by (auto simp: wf_map_def)
  then obtain a where "node = Some a" "a < length h" by (rule validE)
  then show ?thesis
    using assms by (simp add: OrderedMap_Set_def Let_def)
qed

lemma Set_absent:
  assumes wf: "wf_map h om" and k: "index_get om k = None"
  shows "\<exists>r h' mp. InsertBefore h (om_head om) (enter k v) = Inr (r, h') \<and>
           om_m (OrderedMap_init om) = Some mp \<and> wf_heap h' \<and> valid h' r \<and>
           length h' = Suc (length h) \<and> Val (h' ! length h) = enter k v \<and>
           OrderedMap_Set h om k v =
             Inr (h', \<lparr>om_m = Some (mp(k \<mapsto> Some (length h))), om_head = r\<rparr>)"
proof -
  have "wf_heap h" "om_head om = None \<or> valid h (om_head om)"
    using wf by (simp_all add: wf_map_def)
  from wf_heap_InsertBefore [OF this, of "enter k v"]
  obtain r h' where ib: "InsertBefore h (om_head om) (enter k v) = Inr (r, h')"
      "wf_heap h'" "valid h' r" "length h' = Suc (length h)"
      "Prev h' r = Inr (Some (length h))" "Val (h' ! length h) = enter k v"
    by blast
  obtain mp where mp: "om_m (OrderedMap_init om) = Some mp"
    using om_m_init by blast
  have "(OrderedMap_init om)\<lparr>om_head := r, om_m := Some (mp(k \<mapsto> Some (length h)))\<rparr> =
          \<lparr>om_m = Some (mp(k \<mapsto> Some (length h))), om_head = r\<rparr>"
    by simp
  then have "OrderedMap_Set h om k v =
          Inr (h', \<lparr>om_m = Some (mp(k \<mapsto> Some (length h))), om_head = r\<rparr>)"
    using ib mp k by (simp add: OrderedMap_Set_def Let_def)
  then show ?thesis using ib mp by blast
qed

lemma wf_map_Set:
  assumes wf: "wf_map h om"
  shows "\<exists>h' om'. OrderedMap_Set h om k v = Inr (h', om') \<and> wf_map h' om' \<and>
           OrderedMap_Lookup z h' om' k = Inr (v, True)"
proof (cases "index_get om k")
  case None
  from Set_absent [OF wf None, of v]
  obtain r h' mp where s: "om_m (OrderedMap_init om) = Some mp" "wf_heap h'" "valid h' r"
      "length h' = Suc (length h)" "Val (h' ! length h) = enter k v"
      "OrderedMap_Set h om k v =
         Inr (h', \<lparr>om_m = Some (mp(k \<mapsto> Some (length h))), om_head = r\<rparr>)"
    by blast
  let ?om' = "\<lparr>om_m = Some (mp(k \<mapsto> Some (length h))), om_head = r\<rparr>"
  have idx: "index_get ?om' k' = (if k' = k then Some (Some (length h)) else index_get om k')"
    for k'
    using s(1) index_get_init [of om k'] by (simp add: index_get_def)
  have "valid h' node" if "index_get ?om' k' = Some node" for k' node
  proof (cases "k' = k")
    case True
    then show ?thesis using that s(4) by (auto simp: idx)
  next
    case False
    then have "valid h node" using that wf by (auto simp: idx wf_map_def)
    then show ?thesis using s(4) by (auto intro: valid_mono)
  qed
  then have "wf_map h' ?om'"
    using s by (simp add: wf_map_def)
  moreover have "OrderedMap_Lookup z h' ?om' k = Inr (v, True)"
    using s by (simp add: OrderedMap_Lookup_def idx deref_def enter_def)
  ultimately show ?thesis using s(6) by simp
next
  case (Some node)
  from Set_present [OF wf Some, of v]
  obtain a where a: "node = Some a" "a < length h"
      "OrderedMap_Set h om k v =
         Inr (h[a := (h ! a)\<lparr>Val := (Val (h ! a))\<lparr>val := v\<rparr>\<rparr>], OrderedMap_init om)"
    by blast
  let ?h' = "h[a := (h ! a)\<lparr>Val := (Val (h ! a))\<lparr>val := v\<rparr>\<rparr>]"
  have old: "valid ?h' (prev (h ! c))" "valid ?h' (nxt (h ! c))" if "c < length h" for c
    using wf that by (auto simp: wf_map_def wf_heap_iff intro: valid_mono)
  have "valid ?h' (prev (?h' ! b)) \<and> valid ?h' (nxt (?h' ! b))" if "b < length h" for b
    using that a old by (auto simp: nth_list_update)
  then have "wf_heap ?h'"
    by (simp add: wf_heap_iff)
  moreover have "valid ?h' r" if "valid h r" for r
    using that by (auto intro: valid_mono)
  ultimately have "wf_map ?h' (OrderedMap_init om)"
    using wf by (auto simp: wf_map_def)
  moreover have "OrderedMap_Lookup z ?h' (OrderedMap_init om) k = Inr (v, True)"
    using Some a by (simp add: OrderedMap_Lookup_def deref_def)
  ultimately show ?thesis using a(3) by simp
qed

lemma Delete_absent: "index_get om k = None \<Longrightarrow> OrderedMap_Delete h om k = Inr (h, om)"
  by (simp add: OrderedMap_Delete_def)

lemma wf_map_Delete:
  assumes wf: "wf_map h om"
  shows "\<exists>h' om'. OrderedMap_Delete h om k = Inr (h', om') \<and> wf_map h' om' \<and>
           OrderedMap_Lookup z h' om' k = Inr (z, False)"
proof (cases "index_get om k")
  case None
  then show ?thesis
    using wf by (simp add: Delete_absent OrderedMap_Lookup_def)
next
  case (Some node)
  then have "valid h node" using wf by (auto simp: wf_map_def)
  then obtain l where l: "node = Some l" "l < length h" by (rule validE)
  have wfh: "wf_heap h" using wf by (simp add: wf_map_def)
  from wf_heap_Remove [OF wfh l(2)]
  obtain r h' where rm: "Remove h (Some l) = Inr (r, h')" "wf_heap h'" "valid h' r"
      "length h' = length h"
    by blast
  obtain pr where pr: "r = Some pr" "pr < length h'"
    using rm(3) by (rule validE)
  define hd' where "hd' = (if node = om_head om then nxt (h' ! pr) else om_head om)"
  define om' where
    "om' = om\<lparr>om_head := hd', om_m := map_option (\<lambda>mp. mp(k := None)) (om_m om)\<rparr>"
  have del: "OrderedMap_Delete h om k = Inr (h', om')"
    using Some l rm pr by (simp add: OrderedMap_Delete_def Next_def hd'_def om'_def)
  have idx: "index_get om' k' = (if k' = k then None else index_get om k')" for k'
    by (simp add: om'_def index_get_def split: option.splits)
  have "valid h' (nxt (h' ! pr))"
    using rm(2) pr by (simp add: wf_heap_iff)
  moreover have "om_head om = None \<or> valid h' (om_head om)"
    using wf rm(4) by (auto simp: wf_map_def intro: valid_mono)
  ultimately have "om_head om' = None \<or> valid h' (om_head om')"
    by (auto simp: om'_def hd'_def)
  moreover have "valid h' nd" if "index_get om' k' = Some nd" for k' nd
  proof -
    have "index_get om k' = Some nd" using that by (simp add: idx split: if_splits)
    then have "valid h nd" using wf by (auto simp: wf_map_def)
    then show ?thesis using rm(4) by (auto intro: valid_mono)
  qed
  ultimately have "wf_map h' om'"
    using rm(2) by (auto simp: wf_map_def)
  moreover have "OrderedMap_Lookup z h' om' k = Inr (z, False)"
    by (simp add: OrderedMap_Lookup_def idx)
  ultimately show ?thesis using del by simp
qed

lemma wf_map_Clear:
  assumes wf: "wf_map h om"
  shows "\<exists>h' om'. OrderedMap_Clear h om = Inr (h', om') \<and> wf_map h' om'"
  using wf by (auto simp: OrderedMap_Clear_def wf_map_def index_get_def split: option.splits)

lemma wf_map_zero: "wf_map [] OrderedMap_zero"
  by (simp add: wf_map_def wf_heap_def OrderedMap_zero_def index_get_def)

lemma Lookup_total:
  assumes wf: "wf_map h om"
  shows "\<exists>r. OrderedMap_Lookup z h om k = Inr r"
proof (cases "index_get om k")
  case None
  then have "OrderedMap_Lookup z h om k = Inr (z, False)"
    by (simp add: OrderedMap_Lookup_def)
  then show ?thesis by blast
next
  case (Some node)
  then have "valid h node" using wf by (auto simp: wf_map_def)
  then obtain l where "node = Some l" "l < length h" by (rule validE)
  then have "OrderedMap_Lookup z h om k = Inr (val (Val (h ! l)), True)"
    using Some by (simp add: OrderedMap_Lookup_def deref_def)
  then show ?thesis by blast
qed

lemma apply_op_wf:
  assumes "wf_map (fst st) (snd st)"
  shows "\<exists>h' om'. apply_op st x = Inr (h', om') \<and> wf_map h' om'"
proof (cases st)
  case (Pair h om)
  then have wf: "wf_map h om" using assms by simp
  show ?thesis
  proof (cases x)
    case (OpSet k v)
    then show ?thesis using wf_map_Set [OF wf, of k v v] Pair by auto
  next
    case (OpDelete k)
    then show ?thesis using wf_map_Delete [OF wf, of k undefined] Pair by auto
  next
    case OpClear
    then show ?thesis using wf_map_Clear [OF wf] Pair by auto
  qed
qed

lemma apply_ops_wf:
  "wf_map (fst st) (snd st) \<Longrightarrow> \<exists>h' om'. apply_ops st xs = Inr (h', om') \<and> wf_map h' om'"
proof (induction xs arbitrary: st)
  case Nil
  then show ?case by (cases st) simp
next
  case (Cons x xs)
  from apply_op_wf [OF Cons.prems, of x]
  obtain h1 om1 where s: "apply_op st x = Inr (h1, om1)" "wf_map h1 om1" by blast
  from Cons.IH [of "(h1, om1)"] s show ?case by simp
qed

lemma reachable_wf:
  "\<exists>h om. apply_ops ([], OrderedMap_zero) xs = Inr (h, om) \<and> wf_map h om"
  using apply_ops_wf [of "([], OrderedMap_zero)" xs] by (simp add: wf_map_zero)

text \<open>
  Claim C8. In a well-formed map state (so in every state reachable from the zero value,
  by \<open>reachable_wf\<close>), for every key and value: \<^verbatim>\<open>Set\<close> returns and \<^verbatim>\<open>Lookup\<close> of
  the key then gives the value and \<open>true\<close>; \<^verbatim>\<open>Delete\<close> returns and \<^verbatim>\<open>Lookup\<close> of the
  key then gives the zero value and \<open>false\<close>; \<^verbatim>\<open>Lookup\<close> never panics, and on a key
  that is not in the index it gives the zero value and \<open>false\<close>.
\<close>

theorem Set_Delete_Lookup:
  assumes "wf_map h om"
  shows "(\<exists>h' om'. OrderedMap_Set h om k v = Inr (h', om') \<and>
            OrderedMap_Lookup z h' om' k = Inr (v, True)) \<and>
         (\<exists>h' om'. OrderedMap_Delete h om k = Inr (h', om') \<and>
            OrderedMap_Lookup z h' om' k = Inr (z, False)) \<and>
         (\<exists>r. OrderedMap_Lookup z h om k = Inr r) \<and>
         (index_get om k = None \<longrightarrow> OrderedMap_Lookup z h om k = Inr (z, False))"
proof (intro conjI impI)
  show "\<exists>h' om'. OrderedMap_Set h om k v = Inr (h', om') \<and>
          OrderedMap_Lookup z h' om' k = Inr (v, True)"
    using wf_map_Set [OF assms, of k v z] by blast
  show "\<exists>h' om'. OrderedMap_Delete h om k = Inr (h', om') \<and>
          OrderedMap_Lookup z h' om' k = Inr (z, False)"
    using wf_map_Delete [OF assms, of k z] by blast
  show "\<exists>r. OrderedMap_Lookup z h om k = Inr r"
    using Lookup_total [OF assms] .
  show "OrderedMap_Lookup z h om k = Inr (z, False)" if "index_get om k = None"
    using that by (simp add: OrderedMap_Lookup_def)
qed

theorem Set_Delete_Lookup_witness:
  "wf_map
     [\<lparr>prev = Some 1, nxt = Some 0, Val = \<lparr>key = ''a'', val = 1::int\<rparr>\<rparr>,
      \<lparr>prev = Some 0, nxt = Some 0, Val = \<lparr>key = ''b'', val = 2\<rparr>\<rparr>]
     \<lparr>om_m = Some [''a'' \<mapsto> Some 0, ''b'' \<mapsto> Some 1], om_head = Some 0\<rparr> \<and>
   (\<exists>h' om'. OrderedMap_Set
     [\<lparr>prev = Some 1, nxt = Some 0, Val = \<lparr>key = ''a'', val = 1::int\<rparr>\<rparr>,
      \<lparr>prev = Some 0, nxt = Some 0, Val = \<lparr>key = ''b'', val = 2\<rparr>\<rparr>]
     \<lparr>om_m = Some [''a'' \<mapsto> Some 0, ''b'' \<mapsto> Some 1], om_head = Some 0\<rparr> ''a'' 3 = Inr (h', om') \<and>
     OrderedMap_Lookup 0 h' om' ''a'' = Inr (3, True)) \<and>
   (\<exists>h' om'. OrderedMap_Delete
     [\<lparr>prev = Some 1, nxt = Some 0, Val = \<lparr>key = ''a'', val = 1::int\<rparr>\<rparr>,
      \<lparr>prev = Some 0, nxt = Some 0, Val = \<lparr>key = ''b'', val = 2\<rparr>\<rparr>]
     \<lparr>om_m = Some [''a'' \<mapsto> Some 0, ''b'' \<mapsto> Some 1], om_head = Some 0\<rparr> ''a'' = Inr (h', om') \<and>
     OrderedMap_Lookup 0 h' om' ''a'' = Inr (0, False)) \<and>
   OrderedMap_Lookup 0
     [\<lparr>prev = Some 1, nxt = Some 0, Val = \<lparr>key = ''a'', val = 1::int\<rparr>\<rparr>,
      \<lparr>prev = Some 0, nxt = Some 0, Val = \<lparr>key = ''b'', val = 2\<rparr>\<rparr>]
     \<lparr>om_m = Some [''a'' \<mapsto> Some 0, ''b'' \<mapsto> Some 1], om_head = Some 0\<rparr> ''c'' = Inr (0, False)"
proof -
  let ?h = "[\<lparr>prev = Some 1, nxt = Some 0, Val = \<lparr>key = ''a'', val = 1::int\<rparr>\<rparr>,
      \<lparr>prev = Some 0, nxt = Some 0, Val = \<lparr>key = ''b'', val = 2\<rparr>\<rparr>]"
  let ?om = "\<lparr>om_m = Some [''a'' \<mapsto> Some 0, ''b'' \<mapsto> Some 1], om_head = Some 0\<rparr>"
  have wf: "wf_map ?h ?om"
    by (simp add: wf_map_def wf_heap_def valid_def index_get_def)
  have c: "index_get ?om ''c'' = None"
    by (simp add: index_get_def)
  show ?thesis
    using wf c Set_Delete_Lookup [OF wf, of "''a''" 3 0] Set_Delete_Lookup [OF wf, of "''c''" 3 0]
    by blast
qed

section \<open>Traversal of a cycle\<close>

text \<open>
  On a cycle of the link \<open>f\<close> the loop of \<^verbatim>\<open>seq\<close> hands the nodes of the cycle to the
  consumer, in order, from the node it was started on, and returns; when the consumer
  stops within a chain of nodes, only the links of that chain are read.
\<close>

lemma chain_prefix: "chain f h (xs @ ys) \<Longrightarrow> chain f h xs"
  by (induction f h xs rule: chain.induct) simp_all

lemma chain_cong:
  "chain f h xs \<Longrightarrow> \<forall>x\<in>set (butlast xs). x < length h' \<and> f (h' ! x) = f (h ! x) \<Longrightarrow>
   chain f h' xs"
  by (induction f h xs rule: chain.induct) simp_all

lemma chain_snoc:
  "chain f h (xs @ [x]) \<Longrightarrow> x < length h \<Longrightarrow> f (h ! x) = Some y \<Longrightarrow> chain f h (xs @ [x, y])"
proof (induction f h xs rule: chain.induct)
  case (1 f h)
  then show ?case by simp
next
  case (2 f h z)
  then show ?case by simp
next
  case (3 f h z y' ys)
  then show ?case by simp
qed

lemma cycle_rotate1:
  assumes "cycle f h ns"
  shows "cycle f h (rotate1 ns)"
proof (cases ns)
  case Nil
  then show ?thesis using assms by (simp add: cycle_def)
next
  case (Cons x xs)
  then have c: "chain f h (x # xs @ [x])" and d: "distinct (x # xs)"
    using assms by (simp_all add: cycle_def)
  have "chain f h (xs @ [x, hd (xs @ [x])])"
  proof (cases xs)
    case Nil
    then show ?thesis using c by simp
  next
    case (Cons y ys)
    then have "chain f h ((y # ys) @ [x])" "x < length h" "f (h ! x) = Some y"
      using c by simp_all
    then have "chain f h ((y # ys) @ [x, y])"
      by (rule chain_snoc)
    then show ?thesis using Cons by simp
  qed
  then show ?thesis
    using Cons d by (simp add: cycle_def)
qed

lemma cycle_rotate: "cycle f h ns \<Longrightarrow> cycle f h (rotate i ns)"
  by (induction i) (simp_all add: cycle_rotate1)

lemma seq_loop_full:
  assumes adv: "\<forall>a<length h. adv h (Some a) = Inr (f (h ! a))"
  shows "chain f h (x # xs @ [l]) \<Longrightarrow> l \<notin> set xs \<Longrightarrow>
         seq_loop h adv yield (Some l) (Some x) s = Some (feed yield (map Some (x # xs)) s)"
proof (induction xs arbitrary: x s)
  case Nil
  then have "adv h (Some x) = Inr (Some l)"
    using adv by simp
  then show ?case
    by (subst seq_loop.simps) (simp split: sum.splits prod.splits)
next
  case (Cons y ys)
  then have step: "adv h (Some x) = Inr (Some y)" "y \<noteq> l"
    using adv by auto
  have rest: "seq_loop h adv yield (Some l) (Some y) s' = Some (feed yield (map Some (y # ys)) s')"
    for s'
    using Cons.IH [of y s'] Cons.prems by simp
  show ?case
    by (subst seq_loop.simps) (simp add: step rest split: sum.splits prod.splits)
qed

lemma seq_loop_stop:
  assumes adv: "\<forall>a<length h. adv h (Some a) = Inr (f (h ! a))"
  shows "chain f h (x # xs) \<Longrightarrow> l \<notin> set xs \<Longrightarrow> stops yield (map Some (x # xs)) s \<Longrightarrow>
         seq_loop h adv yield (Some l) (Some x) s = Some (feed yield (map Some (x # xs)) s)"
proof (induction xs arbitrary: x s)
  case Nil
  then show ?case
    by (subst seq_loop.simps) (auto split: sum.splits prod.splits)
next
  case (Cons y ys)
  then have step: "adv h (Some x) = Inr (Some y)" "y \<noteq> l"
    using adv by auto
  have rest: "seq_loop h adv yield (Some l) (Some y) s' = Some (feed yield (map Some (y # ys)) s')"
    if "stops yield (map Some (y # ys)) s'" for s'
    using Cons.IH [of y s'] Cons.prems that by simp
  show ?case
    using Cons.prems(3)
    by (subst seq_loop.simps) (auto simp: step rest split: sum.splits prod.splits)
qed

lemma feed_collect: "feed collect xs acc = Inr (acc @ xs)"
  by (induction xs arbitrary: acc) (simp_all add: collect_def)

lemma collect_upto_step: "collect_upto k x acc = Inr (Suc (length acc) < k, acc @ [x])"
  by (simp add: collect_upto_def)

lemma feed_collect_upto:
  "length acc + length xs \<le> k \<Longrightarrow> feed (collect_upto k) xs acc = Inr (acc @ xs)"
proof (induction xs arbitrary: acc)
  case Nil
  then show ?case by simp
next
  case (Cons x xs)
  show ?case
  proof (cases "Suc (length acc) < k")
    case True
    then show ?thesis
      using Cons.IH [of "acc @ [x]"] Cons.prems by (simp add: collect_upto_step [of k x acc])
  next
    case False
    then have "xs = []" using Cons.prems by (cases xs) auto
    then show ?thesis
      using False by (simp add: collect_upto_step [of k x acc])
  qed
qed

lemma stops_collect_upto:
  "xs \<noteq> [] \<Longrightarrow> length acc + length xs = k \<Longrightarrow> stops (collect_upto k) xs acc"
proof (induction xs arbitrary: acc)
  case Nil
  then show ?case by simp
next
  case (Cons x xs)
  show ?case
  proof (cases xs)
    case Nil
    then show ?thesis using Cons.prems by (simp add: collect_upto_step [of k x acc])
  next
    case (Cons y ys)
    then have "stops (collect_upto k) xs (acc @ [x])"
      using Cons.IH [of "acc @ [x]"] Cons.prems by simp
    then show ?thesis by (simp add: collect_upto_step [of k x acc])
  qed
qed

lemma seq_cycle:
  assumes adv: "\<forall>a<length h. adv h (Some a) = Inr (f (h ! a))"
    and c: "cycle f h ns"
  shows "seq h (Some (hd ns)) adv yield s = Some (feed yield (map Some ns) s)"
proof -
  obtain x xs where ns: "ns = x # xs"
    using c by (cases ns) (simp_all add: cycle_def)
  then have "chain f h (x # xs @ [x])" "x \<notin> set xs"
    using c by (simp_all add: cycle_def)
  then show ?thesis
    using seq_loop_full [where h = h and adv = adv and f = f and x = x and xs = xs and l = x]
      adv ns by (simp add: seq_def)
qed

lemma seq_cycle_from:
  assumes adv: "\<forall>a<length h. adv h (Some a) = Inr (f (h ! a))"
    and c: "cycle f h ns" and i: "i < length ns"
  shows "seq h (Some (ns ! i)) adv yield s = Some (feed yield (map Some (rotate i ns)) s)"
proof -
  have "ns \<noteq> []" using i by auto
  then have "hd (rotate i ns) = ns ! i"
    using i by (simp add: hd_rotate_conv_nth)
  then show ?thesis
    using seq_cycle [where h = h and adv = adv and f = f and ns = "rotate i ns"]
      adv cycle_rotate [OF c, of i] by simp
qed

lemma seq_cycle_upto:
  assumes adv: "\<forall>a<length h'. adv h' (Some a) = Inr (f (h' ! a))"
    and c: "cycle f h ns" and i: "i < length ns"
    and k: "0 < k" "k \<le> length ns"
    and same: "\<forall>j<k. rotate i ns ! j < length h' \<and> h' ! (rotate i ns ! j) = h ! (rotate i ns ! j)"
  shows "seq h' (Some (ns ! i)) adv (collect_upto k) [] =
           Some (Inr (map Some (take k (rotate i ns))))"
proof -
  let ?rs = "rotate i ns"
  have cr: "cycle f h ?rs" using c by (rule cycle_rotate)
  have "ns \<noteq> []" using i by auto
  then have hd: "hd ?rs = ns ! i"
    using i by (simp add: hd_rotate_conv_nth)
  obtain x xs where rs: "?rs = x # xs"
    using cr by (cases ?rs) (simp_all add: cycle_def)
  obtain k' where k': "k = Suc k'"
    using k(1) by (cases k) simp_all
  have tk: "take k ?rs = x # take k' xs"
    by (simp add: rs k')
  have "chain f h (x # xs @ [x])"
    using cr by (simp add: cycle_def rs)
  moreover have "(x # take k' xs) @ (drop k' xs @ [x]) = x # xs @ [x]"
    by (metis append_Cons append_assoc append_take_drop_id)
  ultimately have "chain f h ((x # take k' xs) @ (drop k' xs @ [x]))"
    by (simp only:)
  then have "chain f h (x # take k' xs)"
    by (rule chain_prefix)
  moreover have "\<forall>a\<in>set (butlast (x # take k' xs)). a < length h' \<and> f (h' ! a) = f (h ! a)"
  proof
    fix a assume "a \<in> set (butlast (x # take k' xs))"
    then have "a \<in> set (take k ?rs)"
      using tk by (metis in_set_butlastD)
    then obtain j where "j < k" "j < length ?rs" "?rs ! j = a"
      by (auto simp: in_set_conv_nth)
    then show "a < length h' \<and> f (h' ! a) = f (h ! a)"
      using same by auto
  qed
  ultimately have ch: "chain f h' (x # take k' xs)"
    by (rule chain_cong)
  have "distinct (x # xs)"
    using cr by (simp add: cycle_def rs)
  then have nin: "x \<notin> set (take k' xs)"
    by (auto dest: in_set_takeD)
  have len: "length (take k ?rs) = k"
    using k by simp
  have st: "stops (collect_upto k) (map Some (x # take k' xs)) []"
    using stops_collect_upto [of "map Some (take k ?rs)" "[]" k] len tk by simp
  have "feed (collect_upto k) (map Some (take k ?rs)) [] = Inr ([] @ map Some (take k ?rs))"
    using len by (intro feed_collect_upto) simp
  then show ?thesis
    using seq_loop_stop [where h = h' and adv = adv and f = f, OF _ ch nin st] adv hd rs tk
    by (simp add: seq_def)
qed

text \<open>
  Claim C4. Let \<open>ns\<close> be a cycle of \<^verbatim>\<open>next\<close> links in the heap (a list of
  \<open>count = length ns\<close> distinct nodes) and let \<open>ns ! i\<close> be any of its nodes. Then
  \<^verbatim>\<open>All\<close> from that node returns, and yields the nodes of \<open>ns\<close> rotated so that the
  start comes first: \<open>count\<close> references, each node once, in \<^verbatim>\<open>next\<close> order. A
  consumer that stops after \<open>k\<close> elements gets the first \<open>k\<close> of them, and gets them
  on every heap that agrees with this one on those \<open>k\<close> nodes, whatever its other cells
  hold: no other node is read. \<^verbatim>\<open>Backward\<close> is the same on a cycle of \<^verbatim>\<open>prev\<close> links.
  The lists that \<^verbatim>\<open>InsertBefore\<close> and \<^verbatim>\<open>InsertAfter\<close> build need not be such cycles
  (claim C1); the statement is about \<^verbatim>\<open>seq\<close>.
\<close>

theorem seq_visits_cycle_once:
  assumes i: "i < length ns"
  shows "(cycle nxt h ns \<longrightarrow>
            List_All h (Some (ns ! i)) collect [] = Some (Inr (map Some (rotate i ns))) \<and>
            (\<forall>k h'. 0 < k \<and> k \<le> length ns \<and>
               (\<forall>j<k. rotate i ns ! j < length h' \<and>
                       h' ! (rotate i ns ! j) = h ! (rotate i ns ! j)) \<longrightarrow>
               List_All h' (Some (ns ! i)) (collect_upto k) [] =
                 Some (Inr (map Some (take k (rotate i ns)))))) \<and>
         (cycle prev h ns \<longrightarrow>
            Backward h (Some (ns ! i)) collect [] = Some (Inr (map Some (rotate i ns))) \<and>
            (\<forall>k h'. 0 < k \<and> k \<le> length ns \<and>
               (\<forall>j<k. rotate i ns ! j < length h' \<and>
                       h' ! (rotate i ns ! j) = h ! (rotate i ns ! j)) \<longrightarrow>
               Backward h' (Some (ns ! i)) (collect_upto k) [] =
                 Some (Inr (map Some (take k (rotate i ns)))))) \<and>
         length (rotate i ns) = length ns \<and> set (rotate i ns) = set ns \<and>
         (distinct ns \<longrightarrow> distinct (rotate i ns)) \<and> hd (rotate i ns) = ns ! i"
proof -
  have n: "\<forall>a<length h. Next h (Some a) = Inr (nxt (h ! a))" for h :: "'a heap"
    by (simp add: Next_valid)
  have p: "\<forall>a<length h. Prev h (Some a) = Inr (prev (h ! a))" for h :: "'a heap"
    by (simp add: Prev_valid)
  have "ns \<noteq> []" using i by auto
  then have hd: "hd (rotate i ns) = ns ! i"
    using i by (simp add: hd_rotate_conv_nth)
  have fwd: "List_All h (Some (ns ! i)) collect [] = Some (Inr (map Some (rotate i ns)))"
    if "cycle nxt h ns"
    using seq_cycle_from [where adv = Next and f = nxt, OF _ that i, of collect "[]"] n
    by (simp add: List_All_def feed_collect)
  have bwd: "Backward h (Some (ns ! i)) collect [] = Some (Inr (map Some (rotate i ns)))"
    if "cycle prev h ns"
    using seq_cycle_from [where adv = Prev and f = prev, OF _ that i, of collect "[]"] p
    by (simp add: Backward_def feed_collect)
  have fwd_stop: "List_All h' (Some (ns ! i)) (collect_upto k) [] =
                 Some (Inr (map Some (take k (rotate i ns))))"
    if "cycle nxt h ns" "0 < k" "k \<le> length ns"
      "\<forall>j<k. rotate i ns ! j < length h' \<and> h' ! (rotate i ns ! j) = h ! (rotate i ns ! j)"
    for k h'
    using seq_cycle_upto [where adv = Next and f = nxt, OF _ that(1) i that(2,3,4)] n
    by (simp add: List_All_def)
  have bwd_stop: "Backward h' (Some (ns ! i)) (collect_upto k) [] =
                 Some (Inr (map Some (take k (rotate i ns))))"
    if "cycle prev h ns" "0 < k" "k \<le> length ns"
      "\<forall>j<k. rotate i ns ! j < length h' \<and> h' ! (rotate i ns ! j) = h ! (rotate i ns ! j)"
    for k h'
    using seq_cycle_upto [where adv = Prev and f = prev, OF _ that(1) i that(2,3,4)] p
    by (simp add: Backward_def)
  show ?thesis
    using fwd bwd fwd_stop bwd_stop hd by simp
qed

theorem seq_visits_cycle_once_witness:
  "(1::nat) < length [0, 1, 2::nat] \<and>
   cycle nxt
     [\<lparr>prev = Some 0, nxt = Some 1, Val = ''A''\<rparr>,
      \<lparr>prev = Some 0, nxt = Some 2, Val = ''B''\<rparr>,
      \<lparr>prev = Some 1, nxt = Some 0, Val = ''C''\<rparr>] [0, 1, 2] \<and>
   List_All
     [\<lparr>prev = Some 0, nxt = Some 1, Val = ''A''\<rparr>,
      \<lparr>prev = Some 0, nxt = Some 2, Val = ''B''\<rparr>,
      \<lparr>prev = Some 1, nxt = Some 0, Val = ''C''\<rparr>] (Some 1) collect [] =
     Some (Inr [Some 1, Some 2, Some 0]) \<and>
   List_All
     [\<lparr>prev = None, nxt = None, Val = ''?''\<rparr>,
      \<lparr>prev = Some 0, nxt = Some 2, Val = ''B''\<rparr>,
      \<lparr>prev = Some 1, nxt = Some 0, Val = ''C''\<rparr>] (Some 1) (collect_upto 2) [] =
     Some (Inr [Some 1, Some 2]) \<and>
   cycle prev
     [\<lparr>prev = Some 2, nxt = Some 0, Val = ''A''\<rparr>,
      \<lparr>prev = Some 0, nxt = Some 0, Val = ''B''\<rparr>,
      \<lparr>prev = Some 1, nxt = Some 0, Val = ''C''\<rparr>] [0, 2, 1] \<and>
   Backward
     [\<lparr>prev = Some 2, nxt = Some 0, Val = ''A''\<rparr>,
      \<lparr>prev = Some 0, nxt = Some 0, Val = ''B''\<rparr>,
      \<lparr>prev = Some 1, nxt = Some 0, Val = ''C''\<rparr>] (Some 2) collect [] =
     Some (Inr [Some 2, Some 1, Some 0])"
proof -
  let ?h = "[\<lparr>prev = Some 0, nxt = Some 1, Val = ''A''\<rparr>,
      \<lparr>prev = Some 0, nxt = Some 2, Val = ''B''\<rparr>,
      \<lparr>prev = Some 1, nxt = Some 0, Val = ''C''\<rparr>]"
  let ?g = "[\<lparr>prev = Some 2, nxt = Some 0, Val = ''A''\<rparr>,
      \<lparr>prev = Some 0, nxt = Some 0, Val = ''B''\<rparr>,
      \<lparr>prev = Some 1, nxt = Some 0, Val = ''C''\<rparr>]"
  let ?h' = "[\<lparr>prev = None, nxt = None, Val = ''?''\<rparr>,
      \<lparr>prev = Some 0, nxt = Some 2, Val = ''B''\<rparr>,
      \<lparr>prev = Some 1, nxt = Some 0, Val = ''C''\<rparr>]"
  have i: "(1::nat) < length [0, 1, 2::nat]" and j: "(1::nat) < length [0, 2, 1::nat]"
    by simp_all
  have n: "cycle nxt ?h [0, 1, 2]" and p: "cycle prev ?g [0, 2, 1]"
    by (simp_all add: cycle_def)
  have r1: "rotate 1 [0, 1, 2::nat] = [1, 2, 0]" and r2: "rotate 1 [0, 2, 1::nat] = [2, 1, 0]"
    by (simp_all add: rotate_def)
  note f = seq_visits_cycle_once [OF i, of ?h]
  note b = seq_visits_cycle_once [OF j, of ?g]
  have "List_All ?h (Some 1) collect [] = Some (Inr [Some 1, Some 2, Some 0])"
    using f n r1 by simp
  moreover have "\<forall>j<2. rotate 1 [0, 1, 2::nat] ! j < length ?h' \<and>
      ?h' ! (rotate 1 [0, 1, 2::nat] ! j) = ?h ! (rotate 1 [0, 1, 2::nat] ! j)"
    by (simp add: r1 less_2_cases_iff)
  then have "List_All ?h' (Some 1) (collect_upto 2) [] = Some (Inr [Some 1, Some 2])"
    using f n r1 by (simp del: rotate_Suc)
  moreover have "Backward ?g (Some 2) collect [] = Some (Inr [Some 2, Some 1, Some 0])"
    using b p r2 by simp
  ultimately show ?thesis
    using i n p by (intro conjI)
qed

section \<open>Bulk insertion\<close>

lemma chain_valid: "chain f h (xs @ [y]) \<Longrightarrow> \<forall>x\<in>set xs. x < length h"
  by (induction f h xs rule: chain.induct) auto

lemma cycle_valid: "cycle f h ns \<Longrightarrow> \<forall>x\<in>set ns. x < length h"
  unfolding cycle_def using chain_valid by blast

lemma cycle_swap:
  assumes "cycle f h (xs @ ys)"
  shows "cycle f h (ys @ xs)"
  using cycle_rotate [OF assms, of "length xs"] by (simp add: rotate_append)

lemma cycle_insert:
  assumes c: "cycle f h (l # ps)"
    and len: "length h1 = Suc (length h)"
    and fl: "f (h1 ! l) = Some (length h)"
    and fn: "f (h1 ! length h) = f (h ! l)"
    and old: "\<forall>a<length h. a \<noteq> l \<longrightarrow> f (h1 ! a) = f (h ! a)"
  shows "cycle f h1 (l # length h # ps)"
proof -
  have d: "distinct (l # ps)" and ch: "chain f h (l # ps @ [l])"
    using c by (simp_all add: cycle_def)
  have v: "\<forall>x\<in>set (l # ps). x < length h"
    using c by (rule cycle_valid)
  then have fresh: "length h \<notin> set (l # ps)"
    by auto
  have "chain f h1 (length h # ps @ [l])"
  proof (cases ps)
    case Nil
    then show ?thesis using ch fn len by simp
  next
    case (Cons p ps')
    then have fp: "f (h ! l) = Some p"
      using ch by simp
    have "chain f h (p # ps' @ [l])"
      using ch Cons by simp
    moreover have "\<forall>x\<in>set (butlast (p # ps' @ [l])). x < length h1 \<and> f (h1 ! x) = f (h ! x)"
      using v d old len Cons by (auto simp: butlast_append)
    ultimately have "chain f h1 (p # ps' @ [l])"
      by (rule chain_cong)
    then show ?thesis using Cons fn fp len by simp
  qed
  then have "chain f h1 (l # length h # ps @ [l])"
    using v fl len by simp
  then show ?thesis
    using d fresh by (simp add: cycle_def)
qed

lemma InsertBefore_cycle:
  assumes c: "cycle prev h (l # ps)"
  shows "\<exists>h1. InsertBefore h (Some l) v = Inr (Some l, h1) \<and>
           cycle prev h1 (l # length h # ps) \<and> length h1 = Suc (length h) \<and>
           Val (h1 ! length h) = v \<and> (\<forall>a<length h. Val (h1 ! a) = Val (h ! a))"
proof -
  have l: "l < length h"
    using cycle_valid [OF c] by simp
  let ?h1 = "(h @ [\<lparr>prev = prev (h ! l), nxt = Some l, Val = v\<rparr>])
               [l := (h ! l)\<lparr>prev := Some (length h)\<rparr>]"
  have "cycle prev ?h1 (l # length h # ps)"
    using c l by (intro cycle_insert) (simp_all add: nth_append)
  moreover have "\<forall>a<length h. Val (?h1 ! a) = Val (h ! a)"
    using l by (simp add: nth_list_update nth_append)
  ultimately show ?thesis
    using l by (simp add: InsertBefore_node)
qed

lemma InsertAfter_cycle:
  assumes c: "cycle nxt h (l # ns)"
  shows "\<exists>h1. InsertAfter h (Some l) v = Inr (Some l, h1) \<and>
           cycle nxt h1 (l # length h # ns) \<and> length h1 = Suc (length h) \<and>
           Val (h1 ! length h) = v \<and> (\<forall>a<length h. Val (h1 ! a) = Val (h ! a))"
proof -
  have l: "l < length h"
    using cycle_valid [OF c] by simp
  let ?h1 = "(h @ [\<lparr>prev = Some l, nxt = nxt (h ! l), Val = v\<rparr>])
               [l := (h ! l)\<lparr>nxt := Some (length h)\<rparr>]"
  have "cycle nxt ?h1 (l # length h # ns)"
    using c l by (intro cycle_insert) (simp_all add: nth_append)
  moreover have "\<forall>a<length h. Val (?h1 ! a) = Val (h ! a)"
    using l by (simp add: nth_list_update nth_append)
  ultimately show ?thesis
    using l by (simp add: InsertAfter_node)
qed

lemma InsertSeqBefore_cycle:
  "cycle prev h (l # ps) \<Longrightarrow>
   \<exists>h'. InsertSeqBefore h (Some l) vs = Inr (Some l, h') \<and>
     cycle prev h' (l # rev [length h..<length h + length vs] @ ps) \<and>
     length h' = length h + length vs \<and>
     (\<forall>a<length h. Val (h' ! a) = Val (h ! a)) \<and>
     map (\<lambda>a. Val (h' ! a)) [length h..<length h + length vs] = vs"
proof (induction vs arbitrary: h ps)
  case Nil
  then show ?case by simp
next
  case (Cons v vs)
  from InsertBefore_cycle [OF Cons.prems, of v]
  obtain h1 where s: "InsertBefore h (Some l) v = Inr (Some l, h1)"
      "cycle prev h1 (l # length h # ps)" "length h1 = Suc (length h)"
      "Val (h1 ! length h) = v" "\<forall>a<length h. Val (h1 ! a) = Val (h ! a)"
    by blast
  from Cons.IH [OF s(2)]
  obtain h' where r: "InsertSeqBefore h1 (Some l) vs = Inr (Some l, h')"
      "cycle prev h' (l # rev [length h1..<length h1 + length vs] @ length h # ps)"
      "length h' = length h1 + length vs"
      "\<forall>a<length h1. Val (h' ! a) = Val (h1 ! a)"
      "map (\<lambda>a. Val (h' ! a)) [length h1..<length h1 + length vs] = vs"
    by blast
  have upt: "[length h..<length h + length (v # vs)] =
               length h # [length h1..<length h1 + length vs]"
    using s(3) by (simp add: upt_conv_Cons del: upt_Suc)
  have "InsertSeqBefore h (Some l) (v # vs) = Inr (Some l, h')"
    using s(1) r(1) by simp
  moreover have "cycle prev h' (l # rev [length h..<length h + length (v # vs)] @ ps)"
    using r(2) by (simp only: upt rev.simps append_assoc append_Cons append_Nil)
  moreover have "length h' = length h + length (v # vs)"
    using r(3) s(3) by simp
  moreover have "\<forall>a<length h. Val (h' ! a) = Val (h ! a)"
    using r(4) s(3,5) by simp
  moreover have "Val (h' ! length h) = v"
    using r(4) s(3,4) by simp
  then have "map (\<lambda>a. Val (h' ! a)) [length h..<length h + length (v # vs)] = v # vs"
    by (simp only: upt list.map r(5))
  ultimately show ?case by (intro exI [of _ h'] conjI)
qed

lemma InsertSeqAfter_loop_cycle:
  "cycle nxt h (xs @ t # ns) \<Longrightarrow> list \<noteq> None \<Longrightarrow>
   \<exists>h'. InsertSeqAfter_loop h list (Some t) vs = Inr (list, h') \<and>
     cycle nxt h' (xs @ t # [length h..<length h + length vs] @ ns) \<and>
     length h' = length h + length vs \<and>
     (\<forall>a<length h. Val (h' ! a) = Val (h ! a)) \<and>
     map (\<lambda>a. Val (h' ! a)) [length h..<length h + length vs] = vs"
proof (induction vs arbitrary: h xs t)
  case Nil
  then show ?case by simp
next
  case (Cons v vs)
  have "cycle nxt h (t # ns @ xs)"
    using cycle_swap [OF Cons.prems(1)] by simp
  from InsertAfter_cycle [OF this, of v]
  obtain h1 where s: "InsertAfter h (Some t) v = Inr (Some t, h1)"
      "cycle nxt h1 (t # length h # ns @ xs)" "length h1 = Suc (length h)"
      "Val (h1 ! length h) = v" "\<forall>a<length h. Val (h1 ! a) = Val (h ! a)"
    by blast
  have t: "t < length h1" "nxt (h1 ! t) = Some (length h)"
    using s(2) by (simp_all add: cycle_def)
  then have nx: "Next h1 (Some t) = Inr (Some (length h))"
    by (simp add: Next_def)
  have "cycle nxt h1 ((t # length h # ns) @ xs)"
    using s(2) by simp
  then have "cycle nxt h1 (xs @ t # length h # ns)"
    by (rule cycle_swap)
  then have "cycle nxt h1 ((xs @ [t]) @ length h # ns)"
    by simp
  from Cons.IH [OF this Cons.prems(2)]
  obtain h' where r: "InsertSeqAfter_loop h1 list (Some (length h)) vs = Inr (list, h')"
      "cycle nxt h' ((xs @ [t]) @ length h # [length h1..<length h1 + length vs] @ ns)"
      "length h' = length h1 + length vs"
      "\<forall>a<length h1. Val (h' ! a) = Val (h1 ! a)"
      "map (\<lambda>a. Val (h' ! a)) [length h1..<length h1 + length vs] = vs"
    by blast
  have upt: "[length h..<length h + length (v # vs)] =
               length h # [length h1..<length h1 + length vs]"
    using s(3) by (simp add: upt_conv_Cons del: upt_Suc)
  have "(if list = None then Some (length h) else list) = list"
    using Cons.prems(2) by simp
  then have "InsertSeqAfter_loop h list (Some t) (v # vs) = Inr (list, h')"
    using s(1) nx r(1) by simp
  moreover have "cycle nxt h' (xs @ t # [length h..<length h + length (v # vs)] @ ns)"
    using r(2) by (simp only: upt append_assoc append_Cons append_Nil)
  moreover have "length h' = length h + length (v # vs)"
    using r(3) s(3) by simp
  moreover have "\<forall>a<length h. Val (h' ! a) = Val (h ! a)"
    using r(4) s(3,5) by simp
  moreover have "Val (h' ! length h) = v"
    using r(4) s(3,4) by simp
  then have "map (\<lambda>a. Val (h' ! a)) [length h..<length h + length (v # vs)] = v # vs"
    by (simp only: upt list.map r(5))
  ultimately show ?case by (intro exI [of _ h'] conjI)
qed

lemma feed_yield_Val:
  "\<forall>x\<in>set ns. x < length h \<Longrightarrow>
   feed (yield_Val h collect) (map Some ns) acc = Inr (acc @ map (\<lambda>a. Val (h ! a)) ns)"
  by (induction ns arbitrary: acc) (simp_all add: yield_Val_def deref_def collect_def)

lemma ValuesBackward_cycle:
  assumes "cycle prev h ns"
  shows "ValuesBackward h (Some (hd ns)) collect [] = Some (Inr (map (\<lambda>a. Val (h ! a)) ns))"
  using seq_cycle [where adv = Prev and f = prev and h = h and ns = ns
      and yield = "yield_Val h collect" and s = "[]"] assms
    feed_yield_Val [OF cycle_valid [OF assms], of "[]"]
  by (simp add: ValuesBackward_def Backward_def Prev_valid)

lemma Values_cycle:
  assumes "cycle nxt h ns"
  shows "Values h (Some (hd ns)) collect [] = Some (Inr (map (\<lambda>a. Val (h ! a)) ns))"
  using seq_cycle [where adv = Next and f = nxt and h = h and ns = ns
      and yield = "yield_Val h collect" and s = "[]"] assms
    feed_yield_Val [OF cycle_valid [OF assms], of "[]"]
  by (simp add: Values_def List_All_def Next_valid)

lemma InsertSeqBefore_anchor:
  assumes c: "cycle prev h (l # ps)"
  shows "\<exists>h'. InsertSeqBefore h (Some l) vs = Inr (Some l, h') \<and>
           ValuesBackward h' (Some l) collect [] =
             Some (Inr (Val (h ! l) # rev vs @ map (\<lambda>a. Val (h ! a)) ps))"
proof -
  from InsertSeqBefore_cycle [OF c, of vs]
  obtain h' where r: "InsertSeqBefore h (Some l) vs = Inr (Some l, h')"
      "cycle prev h' (l # rev [length h..<length h + length vs] @ ps)"
      "\<forall>a<length h. Val (h' ! a) = Val (h ! a)"
      "map (\<lambda>a. Val (h' ! a)) [length h..<length h + length vs] = vs"
    by blast
  have v: "\<forall>x\<in>set (l # ps). x < length h"
    using c by (rule cycle_valid)
  then have "map (\<lambda>a. Val (h' ! a)) ps = map (\<lambda>a. Val (h ! a)) ps" "Val (h' ! l) = Val (h ! l)"
    using r(3) by simp_all
  moreover have "map (\<lambda>a. Val (h' ! a)) (rev [length h..<length h + length vs]) = rev vs"
    by (simp only: rev_map [symmetric] r(4))
  ultimately have "map (\<lambda>a. Val (h' ! a)) (l # rev [length h..<length h + length vs] @ ps) =
          Val (h ! l) # rev vs @ map (\<lambda>a. Val (h ! a)) ps"
    by (simp only: list.map map_append)
  then show ?thesis
    using ValuesBackward_cycle [OF r(2)] r(1) by simp
qed

lemma InsertSeqAfter_anchor:
  assumes c: "cycle nxt h (l # ns)"
  shows "\<exists>h'. InsertSeqAfter h (Some l) vs = Inr (Some l, h') \<and>
           Values h' (Some l) collect [] =
             Some (Inr (Val (h ! l) # vs @ map (\<lambda>a. Val (h ! a)) ns))"
proof -
  have "cycle nxt h ([] @ l # ns)" using c by simp
  from InsertSeqAfter_loop_cycle [OF this, of "Some l" vs]
  obtain h' where r: "InsertSeqAfter_loop h (Some l) (Some l) vs = Inr (Some l, h')"
      "cycle nxt h' (l # [length h..<length h + length vs] @ ns)"
      "\<forall>a<length h. Val (h' ! a) = Val (h ! a)"
      "map (\<lambda>a. Val (h' ! a)) [length h..<length h + length vs] = vs"
    by auto
  have v: "\<forall>x\<in>set (l # ns). x < length h"
    using c by (rule cycle_valid)
  then have "map (\<lambda>a. Val (h' ! a)) ns = map (\<lambda>a. Val (h ! a)) ns" "Val (h' ! l) = Val (h ! l)"
    using r(3) by simp_all
  then have "map (\<lambda>a. Val (h' ! a)) (l # [length h..<length h + length vs] @ ns) =
          Val (h ! l) # vs @ map (\<lambda>a. Val (h ! a)) ns"
    using r(4) by simp
  then show ?thesis
    using Values_cycle [OF r(2)] r(1) by (simp add: InsertSeqAfter_def)
qed

lemma cycle_single:
  "cycle prev (h @ [\<lparr>prev = Some (length h), nxt = Some (length h), Val = v\<rparr>]) [length h]"
  "cycle nxt (h @ [\<lparr>prev = Some (length h), nxt = Some (length h), Val = v\<rparr>]) [length h]"
  by (simp_all add: cycle_def)

lemma NewList_backward:
  "\<exists>r h'. NewList h vs = Inr (r, h') \<and>
     ValuesBackward h' r collect [] = Some (Inr (rev (rotate1 vs)))"
proof (cases vs)
  case Nil
  then show ?thesis
    by (simp add: NewList_def NewListFromSeq_def ValuesBackward_def Backward_def seq_def)
next
  case (Cons v vs')
  let ?h1 = "h @ [\<lparr>prev = Some (length h), nxt = Some (length h), Val = v\<rparr>]"
  from InsertSeqBefore_anchor [OF cycle_single(1), of h v vs']
  obtain h' where "InsertSeqBefore ?h1 (Some (length h)) vs' = Inr (Some (length h), h')"
      "ValuesBackward h' (Some (length h)) collect [] = Some (Inr (v # rev vs'))"
    by auto
  then show ?thesis
    using Cons by (simp add: NewList_def NewListFromSeq_def InsertBefore_nil)
qed

lemma InsertSeqAfter_nil_forward:
  "\<exists>r h'. InsertSeqAfter h None vs = Inr (r, h') \<and> Values h' r collect [] = Some (Inr vs)"
proof (cases vs)
  case Nil
  then show ?thesis
    by (simp add: InsertSeqAfter_def Values_def List_All_def seq_def)
next
  case (Cons v vs')
  let ?h1 = "h @ [\<lparr>prev = Some (length h), nxt = Some (length h), Val = v\<rparr>]"
  from InsertSeqAfter_anchor [OF cycle_single(2), of h v vs']
  obtain h' where "InsertSeqAfter ?h1 (Some (length h)) vs' = Inr (Some (length h), h')"
      "Values h' (Some (length h)) collect [] = Some (Inr (v # vs'))"
    by auto
  then show ?thesis
    using Cons by (simp add: InsertSeqAfter_def InsertAfter_nil Next_def)
qed

text \<open>
  Claim C2 (amended). The claim: bulk insertion keeps the order of the input, and the list
  built from \<open>A, B, C\<close> as \<^verbatim>\<open>NewList\<close> does has the values \<open>A, B, C\<close> forward and
  \<open>C, B, A\<close> backward. What holds: \<^verbatim>\<open>InsertSeqBefore\<close> keeps the order in the
  \<^verbatim>\<open>prev\<close> links, so on a cycle of \<^verbatim>\<open>prev\<close> links the backward traversal from the
  anchor yields the anchor, then the new values in reverse input order, then the old
  nodes; \<^verbatim>\<open>InsertSeqAfter\<close> keeps it in the \<^verbatim>\<open>next\<close> links, so on a cycle of \<^verbatim>\<open>next\<close>
  links the forward traversal from the anchor yields the anchor, the new values in input
  order, then the old nodes. From the empty list, \<^verbatim>\<open>NewList\<close> of \<open>vs\<close> has the backward
  values \<open>rev (rotate1 vs)\<close> (the first value, then the others in reverse: a traversal
  starts with the anchor), and \<^verbatim>\<open>InsertSeqAfter\<close> of \<open>vs\<close> has the forward values
  \<open>vs\<close>. Nothing is said of the forward traversal after \<^verbatim>\<open>InsertSeqBefore\<close>.
\<close>

theorem bulk_insert_keeps_order:
  "(cycle prev h (l # ps) \<longrightarrow>
      (\<exists>h'. InsertSeqBefore h (Some l) vs = Inr (Some l, h') \<and>
         ValuesBackward h' (Some l) collect [] =
           Some (Inr (Val (h ! l) # rev vs @ map (\<lambda>a. Val (h ! a)) ps)))) \<and>
   (cycle nxt h (l # ns) \<longrightarrow>
      (\<exists>h'. InsertSeqAfter h (Some l) vs = Inr (Some l, h') \<and>
         Values h' (Some l) collect [] =
           Some (Inr (Val (h ! l) # vs @ map (\<lambda>a. Val (h ! a)) ns)))) \<and>
   (\<exists>r h'. NewList h vs = Inr (r, h') \<and>
      ValuesBackward h' r collect [] = Some (Inr (rev (rotate1 vs)))) \<and>
   (\<exists>r h'. InsertSeqAfter h None vs = Inr (r, h') \<and>
      Values h' r collect [] = Some (Inr vs))"
  using InsertSeqBefore_anchor [of h l ps vs] InsertSeqAfter_anchor [of h l ns vs]
    NewList_backward [of h vs] InsertSeqAfter_nil_forward [of h vs]
  by (intro conjI impI)

theorem bulk_insert_keeps_order_witness:
  "cycle prev
     [\<lparr>prev = Some 2, nxt = Some 0, Val = ''A''\<rparr>,
      \<lparr>prev = Some 0, nxt = Some 0, Val = ''B''\<rparr>,
      \<lparr>prev = Some 1, nxt = Some 0, Val = ''C''\<rparr>] [0, 2, 1] \<and>
   (\<exists>h'. InsertSeqBefore
     [\<lparr>prev = Some 2, nxt = Some 0, Val = ''A''\<rparr>,
      \<lparr>prev = Some 0, nxt = Some 0, Val = ''B''\<rparr>,
      \<lparr>prev = Some 1, nxt = Some 0, Val = ''C''\<rparr>] (Some 0) [''X'', ''Y''] = Inr (Some 0, h') \<and>
      ValuesBackward h' (Some 0) collect [] = Some (Inr [''A'', ''Y'', ''X'', ''C'', ''B''])) \<and>
   cycle nxt
     [\<lparr>prev = Some 0, nxt = Some 1, Val = ''A''\<rparr>,
      \<lparr>prev = Some 0, nxt = Some 2, Val = ''B''\<rparr>,
      \<lparr>prev = Some 1, nxt = Some 0, Val = ''C''\<rparr>] [0, 1, 2] \<and>
   (\<exists>h'. InsertSeqAfter
     [\<lparr>prev = Some 0, nxt = Some 1, Val = ''A''\<rparr>,
      \<lparr>prev = Some 0, nxt = Some 2, Val = ''B''\<rparr>,
      \<lparr>prev = Some 1, nxt = Some 0, Val = ''C''\<rparr>] (Some 0) [''X'', ''Y''] = Inr (Some 0, h') \<and>
      Values h' (Some 0) collect [] = Some (Inr [''A'', ''X'', ''Y'', ''B'', ''C''])) \<and>
   (\<exists>r h'. NewList ([] :: string heap) [''A'', ''B'', ''C''] = Inr (r, h') \<and>
      ValuesBackward h' r collect [] = Some (Inr [''A'', ''C'', ''B''])) \<and>
   (\<exists>r h'. InsertSeqAfter ([] :: string heap) None [''A'', ''B'', ''C''] = Inr (r, h') \<and>
      Values h' r collect [] = Some (Inr [''A'', ''B'', ''C'']))"
proof -
  let ?h = "[\<lparr>prev = Some 0, nxt = Some 1, Val = ''A''\<rparr>,
      \<lparr>prev = Some 0, nxt = Some 2, Val = ''B''\<rparr>,
      \<lparr>prev = Some 1, nxt = Some 0, Val = ''C''\<rparr>]"
  let ?g = "[\<lparr>prev = Some 2, nxt = Some 0, Val = ''A''\<rparr>,
      \<lparr>prev = Some 0, nxt = Some 0, Val = ''B''\<rparr>,
      \<lparr>prev = Some 1, nxt = Some 0, Val = ''C''\<rparr>]"
  have p: "cycle prev ?g [0, 2, 1]" and n: "cycle nxt ?h [0, 1, 2]"
    by (simp_all add: cycle_def)
  have "\<exists>h'. InsertSeqBefore ?g (Some 0) [''X'', ''Y''] = Inr (Some 0, h') \<and>
      ValuesBackward h' (Some 0) collect [] = Some (Inr [''A'', ''Y'', ''X'', ''C'', ''B''])"
    using bulk_insert_keeps_order [of ?g 0 "[2, 1]" "[''X'', ''Y'']" "[1, 2]"] p by simp
  moreover have "\<exists>h'. InsertSeqAfter ?h (Some 0) [''X'', ''Y''] = Inr (Some 0, h') \<and>
      Values h' (Some 0) collect [] = Some (Inr [''A'', ''X'', ''Y'', ''B'', ''C''])"
    using bulk_insert_keeps_order [of ?h 0 "[2, 1]" "[''X'', ''Y'']" "[1, 2]"] n by simp
  moreover have "\<exists>r h'. NewList ([] :: string heap) [''A'', ''B'', ''C''] = Inr (r, h') \<and>
      ValuesBackward h' r collect [] = Some (Inr [''A'', ''C'', ''B''])"
    using bulk_insert_keeps_order [of "[]" 0 "[]" "[''A'', ''B'', ''C'']" "[]"] by simp
  moreover have "\<exists>r h'. InsertSeqAfter ([] :: string heap) None [''A'', ''B'', ''C''] =
      Inr (r, h') \<and> Values h' r collect [] = Some (Inr [''A'', ''B'', ''C''])"
    using bulk_insert_keeps_order [of "[]" 0 "[]" "[''A'', ''B'', ''C'']" "[]"] by simp
  ultimately show ?thesis
    using p n by (intro conjI)
qed

text \<open>
  The list that \<^verbatim>\<open>NewList("A", "B", "C")\<close> builds on the empty heap: backward it yields
  \<open>A, C, B\<close>, not \<open>C, B, A\<close>, and forward it yields \<open>A\<close> alone.
\<close>

theorem NewList_ABC_traversals:
  "NewList [] [''A'', ''B'', ''C''] =
     Inr (Some 0, [\<lparr>prev = Some 2, nxt = Some 0, Val = ''A''\<rparr>,
                   \<lparr>prev = Some 0, nxt = Some 0, Val = ''B''\<rparr>,
                   \<lparr>prev = Some 1, nxt = Some 0, Val = ''C''\<rparr>]) \<and>
   ValuesBackward [\<lparr>prev = Some 2, nxt = Some 0, Val = ''A''\<rparr>,
                   \<lparr>prev = Some 0, nxt = Some 0, Val = ''B''\<rparr>,
                   \<lparr>prev = Some 1, nxt = Some 0, Val = ''C''\<rparr>] (Some 0) collect [] =
     Some (Inr [''A'', ''C'', ''B'']) \<and>
   ValuesBackward [\<lparr>prev = Some 2, nxt = Some 0, Val = ''A''\<rparr>,
                   \<lparr>prev = Some 0, nxt = Some 0, Val = ''B''\<rparr>,
                   \<lparr>prev = Some 1, nxt = Some 0, Val = ''C''\<rparr>] (Some 0) collect [] \<noteq>
     Some (Inr [''C'', ''B'', ''A'']) \<and>
   Values [\<lparr>prev = Some 2, nxt = Some 0, Val = ''A''\<rparr>,
           \<lparr>prev = Some 0, nxt = Some 0, Val = ''B''\<rparr>,
           \<lparr>prev = Some 1, nxt = Some 0, Val = ''C''\<rparr>] (Some 0) collect [] =
     Some (Inr [''A''])"
  by code_simp

end
